theory Spec2Isabelle
  imports Complex_Main "HOL-Library.AList" "HOL-Library.Word"
begin

section \<open>Python values\<close>

text \<open>
  A Python \<open>str\<close> is a sequence of Unicode code points. A code point is modelled as a
  natural number and a string as the list of its code points, so that \<open>length\<close> counts
  what Python's \<open>len\<close> counts and every Python string has a model. \<open>str\<close> turns an
  ASCII literal into such a string.
\<close>

type_synonym codepoint = nat
type_synonym pystr = "codepoint list"

definition str :: "string \<Rightarrow> pystr" where
  "str = map of_char"

definition NL :: codepoint where "NL = 10"
definition SP :: codepoint where "SP = 32"

text \<open>
  \<open>str.strip()\<close>, \<open>str.isspace()\<close> and the class \<open>\s\<close> of a \<open>str\<close> pattern of \<open>re\<close> all use
  one predicate on code points, CPython's \<open>Py_UNICODE_ISSPACE\<close>: TAB to CR, FS to US, the
  space, NEL, the no-break space and the Unicode space separators.
\<close>

definition isspace :: "codepoint \<Rightarrow> bool" where
  "isspace c \<longleftrightarrow>
     (9 \<le> c \<and> c \<le> 13) \<or> (28 \<le> c \<and> c \<le> 32) \<or> c = 133 \<or> c = 160 \<or> c = 5760 \<or>
     (8192 \<le> c \<and> c \<le> 8202) \<or> c = 8232 \<or> c = 8233 \<or> c = 8239 \<or> c = 8287 \<or> c = 12288"

text \<open>\<open>s.strip()\<close>: drop the white space at both ends.\<close>

definition lstrip :: "pystr \<Rightarrow> pystr" where
  "lstrip s = dropWhile isspace s"

definition rstrip :: "pystr \<Rightarrow> pystr" where
  "rstrip s = rev (dropWhile isspace (rev s))"

definition strip :: "pystr \<Rightarrow> pystr" where
  "strip s = rstrip (lstrip s)"

text \<open>\<open>s.startswith(p)\<close>, \<open>s.endswith(p)\<close>.\<close>

definition startswith :: "pystr \<Rightarrow> pystr \<Rightarrow> bool" where
  "startswith s p \<longleftrightarrow> take (length p) s = p"

definition endswith :: "pystr \<Rightarrow> pystr \<Rightarrow> bool" where
  "endswith s p \<longleftrightarrow> length p \<le> length s \<and> drop (length s - length p) s = p"

text \<open>
  The values \<open>json.loads\<close> returns: \<open>None\<close>, \<open>bool\<close>, \<open>int\<close>, \<open>float\<close>, \<open>str\<close>, \<open>list\<close> and
  \<open>dict\<close>. A \<open>dict\<close> keeps its keys in insertion order: it is an association list with
  one entry for each key, read by \<open>map_of\<close> and written by \<open>AList.update\<close>, which replaces
  the value of a key in place and appends a new key at the end, as \<open>d[k] = v\<close> does.
  No arithmetic is done on a \<open>float\<close> here: it is a rational or one of the three
  special values.
\<close>

datatype pyfloat = Finite rat | PosInf | NegInf | NaN

datatype json =
    JNull
  | JBool bool
  | JInt int
  | JFloat pyfloat
  | JStr pystr
  | JArr "json list"
  | JObj "(pystr \<times> json) list"

datatype builtin_error = TypeError | ValueError | OverflowError

text \<open>
  The built-in \<open>int(x)\<close> on such a value. On a \<open>str\<close> it reads an integer literal; that
  reading is the parameter \<open>conv\<close> (\<open>None\<close> where \<open>int\<close> raises \<open>ValueError\<close>). A \<open>float\<close>
  is truncated towards zero.
\<close>

fun py_int :: "(pystr \<Rightarrow> int option) \<Rightarrow> json \<Rightarrow> builtin_error + int" where
  "py_int conv (JInt n) = Inr n"
| "py_int conv (JBool b) = Inr (if b then 1 else 0)"
| "py_int conv (JFloat (Finite q)) = Inr (if 0 \<le> q then \<lfloor>q\<rfloor> else \<lceil>q\<rceil>)"
| "py_int conv (JFloat NaN) = Inl ValueError"
| "py_int conv (JFloat PosInf) = Inl OverflowError"
| "py_int conv (JFloat NegInf) = Inl OverflowError"
| "py_int conv (JStr s) = (case conv s of None \<Rightarrow> Inl ValueError | Some n \<Rightarrow> Inr n)"
| "py_int conv JNull = Inl TypeError"
| "py_int conv (JArr xs) = Inl TypeError"
| "py_int conv (JObj d) = Inl TypeError"

section \<open>gemini\_analyzer.py: the score normalizer\<close>

text \<open>
  \<^verbatim>\<open>
  def validate_skill_scores(self, skills: list) -> list:
      for skill in skills:
          if 'score' in skill:
              skill['score'] = max(1, min(10, int(skill['score'])))
          else:
              skill['score'] = 5  # Default medium score
      return skills
  \<close>
  The loop body on one entry. On an entry that is not a \<open>dict\<close> either the membership
  test or the item access raises \<open>TypeError\<close>. The loop updates the entries in place;
  the model returns the updated list, or the exception that leaves the loop.
\<close>

definition score_key :: pystr where
  "score_key = str ''score''"

fun validate_skill :: "(pystr \<Rightarrow> int option) \<Rightarrow> json \<Rightarrow> builtin_error + json" where
  "validate_skill conv (JObj skill) =
     (case map_of skill score_key of
        Some v \<Rightarrow>
          (case py_int conv v of
             Inl e \<Rightarrow> Inl e
           | Inr n \<Rightarrow> Inr (JObj (AList.update score_key (JInt (max 1 (min 10 n))) skill)))
      | None \<Rightarrow> Inr (JObj (AList.update score_key (JInt 5) skill)))"
| "validate_skill conv _ = Inl TypeError"

fun validate_skill_scores ::
  "(pystr \<Rightarrow> int option) \<Rightarrow> json list \<Rightarrow> builtin_error + json list" where
  "validate_skill_scores conv [] = Inr []"
| "validate_skill_scores conv (skill # skills) =
     (case validate_skill conv skill of
        Inl e \<Rightarrow> Inl e
      | Inr skill' \<Rightarrow>
          (case validate_skill_scores conv skills of
             Inl e \<Rightarrow> Inl e
           | Inr skills' \<Rightarrow> Inr (skill' # skills')))"

text \<open>A skill entry as the response contract types it: a \<open>dict\<close> whose score, when
  there is one, is an integer.\<close>

definition skill_entry :: "json \<Rightarrow> bool" where
  "skill_entry s \<longleftrightarrow>
     (case s of
        JObj d \<Rightarrow> (case map_of d score_key of None \<Rightarrow> True | Some (JInt n) \<Rightarrow> True | Some _ \<Rightarrow> False)
      | _ \<Rightarrow> False)"

definition score_of :: "json \<Rightarrow> json option" where
  "score_of s = (case s of JObj d \<Rightarrow> map_of d score_key | _ \<Rightarrow> None)"

definition field_of :: "pystr \<Rightarrow> json \<Rightarrow> json option" where
  "field_of k s = (case s of JObj d \<Rightarrow> map_of d k | _ \<Rightarrow> None)"

text \<open>What the normalizer has to do to one entry.\<close>

definition normalised :: "json \<Rightarrow> json \<Rightarrow> bool" where
  "normalised s s' \<longleftrightarrow>
     (\<forall>n. score_of s = Some (JInt n) \<longrightarrow>
          score_of s' = Some (JInt (if n < 1 then 1 else if 10 < n then 10 else n))) \<and>
     (score_of s = None \<longrightarrow> score_of s' = Some (JInt 5)) \<and>
     (\<forall>k. k \<noteq> score_key \<longrightarrow> field_of k s' = field_of k s)"

section \<open>github\_fetcher.py: the profile summary\<close>

text \<open>
  A repository record of the GitHub REST API, with the fields \<open>summarize_data\<close> reads.
  Those read with \<open>repo[...]\<close> are mandatory; \<open>language\<close> is read with \<open>.get\<close> and may be
  \<open>None\<close>, \<open>description\<close> may be \<open>None\<close>, \<open>topics\<close> defaults to the empty list and \<open>fork\<close>
  is tested for truth.
\<close>

record repo =
  name :: pystr
  description :: "pystr option"
  language :: "pystr option"
  stargazers_count :: int
  forks_count :: int
  topics :: "pystr list"
  html_url :: pystr
  updated_at :: pystr
  repo_size :: int
  fork :: bool

text \<open>One entry of \<open>repos_summary\<close>.\<close>

record repo_summary =
  s_name :: pystr
  s_description :: pystr
  s_language :: pystr
  stars :: int
  forks :: int
  s_topics :: "pystr list"
  url :: pystr
  s_updated_at :: pystr
  s_size :: int

text \<open>
  The variables of the loop: \<open>language_count\<close> is a \<open>defaultdict(int)\<close>, \<open>topics_used\<close> a
  \<open>set\<close>, \<open>repos_summary\<close> a list that grows at its end.
\<close>

record summary_state =
  language_count :: "(pystr \<times> nat) list"
  total_stars :: int
  total_forks :: int
  topics_used :: "pystr set"
  repos_summary :: "repo_summary list"

text \<open>\<open>language_count[language] += 1\<close>\<close>

definition increment :: "pystr \<Rightarrow> (pystr \<times> nat) list \<Rightarrow> (pystr \<times> nat) list" where
  "increment l d = AList.update l (case map_of d l of None \<Rightarrow> 1 | Some n \<Rightarrow> n + 1) d"

text \<open>\<open>x or default\<close> on an optional string: \<open>None\<close> and the empty string are false.\<close>

definition or_default :: "pystr option \<Rightarrow> pystr \<Rightarrow> pystr" where
  "or_default x d = (case x of None \<Rightarrow> d | Some s \<Rightarrow> if s = [] then d else s)"

definition summary_of :: "repo \<Rightarrow> repo_summary" where
  "summary_of r =
     \<lparr> s_name = name r,
       s_description = or_default (description r) (str ''No description''),
       s_language = or_default (language r) (str ''Not specified''),
       stars = stargazers_count r,
       forks = forks_count r,
       s_topics = topics r,
       url = html_url r,
       s_updated_at = updated_at r,
       s_size = repo_size r \<rparr>"

text \<open>
  The body of \<open>for repo in repo_data\<close>:
  \<^verbatim>\<open>
  if repo.get("fork") and repo["stargazers_count"] == 0:
      continue
  language = repo.get("language")
  if language:
      language_count[language] += 1
  stars = repo["stargazers_count"]
  forks = repo["forks_count"]
  total_stars += stars
  total_forks += forks
  topics = repo.get("topics", [])
  topics_used.update(topics)
  repos_summary.append({...})
  \<close>
\<close>

definition skipped :: "repo \<Rightarrow> bool" where
  "skipped r \<longleftrightarrow> fork r \<and> stargazers_count r = 0"

definition repo_step :: "summary_state \<Rightarrow> repo \<Rightarrow> summary_state" where
  "repo_step st r =
     (if skipped r then st
      else
        \<lparr> language_count =
            (case language r of
               None \<Rightarrow> language_count st
             | Some l \<Rightarrow> if l = [] then language_count st else increment l (language_count st)),
          total_stars = total_stars st + stargazers_count r,
          total_forks = total_forks st + forks_count r,
          topics_used = topics_used st \<union> set (topics r),
          repos_summary = repos_summary st @ [summary_of r] \<rparr>)"

definition initial_state :: summary_state where
  "initial_state =
     \<lparr> language_count = [], total_stars = 0, total_forks = 0, topics_used = {},
       repos_summary = [] \<rparr>"

text \<open>
  \<open>repos_summary.sort(key=lambda x: x["stars"], reverse=True)\<close>: Python's sort is stable,
  also with \<open>reverse=True\<close> (entries with equal stars keep their order), and so is the
  insertion sort \<open>sort_key\<close> on the negated key.
\<close>

definition sort_by_stars :: "repo_summary list \<Rightarrow> repo_summary list" where
  "sort_by_stars xs = sort_key (\<lambda>x. - stars x) xs"

text \<open>
  The \<open>stats\<close> and \<open>repositories\<close> parts of the returned dictionary. The \<open>user\<close> part copies
  fields of the profile, and the two \<open>activity_metrics\<close> are rounded floating-point
  quotients; they are not modelled. The expression
  \<open>int(user_data.get("created_at", "2020")[:4])\<close>, evaluated before the dictionary is
  built, can raise: its outcome is the parameter \<open>created_year\<close>.
\<close>

record summary =
  total_repositories :: nat
  languages_used :: "(pystr \<times> nat) list"
  total_stars_earned :: int
  total_forks_out :: int
  topics_explored :: "pystr set"
  repositories :: "repo_summary list"

definition summarize_data :: "builtin_error + int \<Rightarrow> repo list \<Rightarrow> builtin_error + summary" where
  "summarize_data created_year repo_data =
     (let st = foldl repo_step initial_state repo_data;
          sorted_summary = sort_by_stars (repos_summary st)
      in case created_year of
           Inl e \<Rightarrow> Inl e
         | Inr y \<Rightarrow>
             Inr \<lparr> total_repositories = length repo_data,
                   languages_used = language_count st,
                   total_stars_earned = total_stars st,
                   total_forks_out = total_forks st,
                   topics_explored = topics_used st,
                   repositories = take 20 sorted_summary \<rparr>)"

definition kept :: "repo list \<Rightarrow> repo list" where
  "kept repo_data = filter (\<lambda>r. \<not> skipped r) repo_data"

definition counted_language :: "pystr \<Rightarrow> repo \<Rightarrow> bool" where
  "counted_language l r \<longleftrightarrow> l \<noteq> [] \<and> language r = Some l"

definition count_in :: "(pystr \<times> nat) list \<Rightarrow> pystr \<Rightarrow> nat" where
  "count_in d l = (case map_of d l of None \<Rightarrow> 0 | Some n \<Rightarrow> n)"

section \<open>Lines\<close>

text \<open>\<open>text.split('\n')\<close>: the pieces between the newlines, at least one.\<close>

fun split_lines :: "pystr \<Rightarrow> pystr list" where
  "split_lines [] = [[]]"
| "split_lines (c # cs) =
     (if c = NL then [] # split_lines cs
      else (c # hd (split_lines cs)) # tl (split_lines cs))"

text \<open>\<open>sep.join(parts)\<close>\<close>

fun join :: "pystr \<Rightarrow> pystr list \<Rightarrow> pystr" where
  "join sep [] = []"
| "join sep [l] = l"
| "join sep (l # m # ls) = l @ sep @ join sep (m # ls)"

text \<open>
  The clean-up shared by the TXT and DOC paths:
  \<^verbatim>\<open>
  lines = [line.strip() for line in text.split('\n')]
  clean_text = "\n".join(line for line in lines if line)
  \<close>
\<close>

definition clean_lines :: "pystr \<Rightarrow> pystr" where
  "clean_lines text =
     (let lines = map strip (split_lines text)
      in join [NL] (filter (\<lambda>line. line \<noteq> []) lines))"

section \<open>extractors.py\<close>

type_synonym byte = "8 word"

text \<open>
  The codecs are Python's, not code of this repository. \<open>utf-8\<close> is the strict decoder
  of RFC 3629 (no overlong forms, no surrogates, nothing above U+10FFFF); \<open>latin-1\<close> and
  its alias \<open>iso-8859-1\<close> map each byte to the code point of the same number; \<open>cp1252\<close>
  differs from them on 0x80..0x9F, where five bytes are undefined.
\<close>

definition continuation :: "nat \<Rightarrow> bool" where
  "continuation b \<longleftrightarrow> 128 \<le> b \<and> b \<le> 191"

fun utf8 :: "nat list \<Rightarrow> pystr option" where
  "utf8 [] = Some []"
| "utf8 (b # bs) =
     (if b < 128 then map_option (\<lambda>r. b # r) (utf8 bs)
      else if 194 \<le> b \<and> b \<le> 223 then
        (case bs of
           c1 # r \<Rightarrow>
             if continuation c1
             then map_option (\<lambda>r. ((b - 192) * 64 + (c1 - 128)) # r) (utf8 r)
             else None
         | _ \<Rightarrow> None)
      else if 224 \<le> b \<and> b \<le> 239 then
        (case bs of
           c1 # c2 # r \<Rightarrow>
             if continuation c1 \<and> continuation c2 \<and>
                (if b = 224 then 160 \<le> c1 else True) \<and> (if b = 237 then c1 \<le> 159 else True)
             then map_option
                    (\<lambda>r. ((b - 224) * 4096 + (c1 - 128) * 64 + (c2 - 128)) # r) (utf8 r)
             else None
         | _ \<Rightarrow> None)
      else if 240 \<le> b \<and> b \<le> 244 then
        (case bs of
           c1 # c2 # c3 # r \<Rightarrow>
             if continuation c1 \<and> continuation c2 \<and> continuation c3 \<and>
                (if b = 240 then 144 \<le> c1 else True) \<and> (if b = 244 then c1 \<le> 143 else True)
             then map_option
                    (\<lambda>r. ((b - 240) * 262144 + (c1 - 128) * 4096 + (c2 - 128) * 64 + (c3 - 128)) # r)
                    (utf8 r)
             else None
         | _ \<Rightarrow> None)
      else None)"

definition cp1252_high :: "codepoint option list" where
  "cp1252_high =
     [Some 8364, None, Some 8218, Some 402, Some 8222, Some 8230, Some 8224, Some 8225,
      Some 710, Some 8240, Some 352, Some 8249, Some 338, None, Some 381, None,
      None, Some 8216, Some 8217, Some 8220, Some 8221, Some 8226, Some 8211, Some 8212,
      Some 732, Some 8482, Some 353, Some 8250, Some 339, None, Some 382, Some 376]"

definition cp1252_char :: "nat \<Rightarrow> codepoint option" where
  "cp1252_char b = (if 128 \<le> b \<and> b < 160 then cp1252_high ! (b - 128) else Some b)"

fun cp1252 :: "nat list \<Rightarrow> pystr option" where
  "cp1252 [] = Some []"
| "cp1252 (b # bs) =
     (case cp1252_char b of
        None \<Rightarrow> None
      | Some c \<Rightarrow> map_option (\<lambda>r. c # r) (cp1252 bs))"

datatype encoding = UTF_8 | LATIN_1 | CP1252 | ISO_8859_1

text \<open>\<open>None\<close> is \<open>UnicodeDecodeError\<close>.\<close>

fun decode :: "encoding \<Rightarrow> byte list \<Rightarrow> pystr option" where
  "decode UTF_8 bs = utf8 (map unat bs)"
| "decode LATIN_1 bs = Some (map unat bs)"
| "decode CP1252 bs = cp1252 (map unat bs)"
| "decode ISO_8859_1 bs = Some (map unat bs)"

text \<open>
  A file opened in text mode translates the line ends \<open>\r\n\<close> and \<open>\r\<close> to \<open>\n\<close> when it
  is read.
\<close>

fun universal_newlines :: "pystr \<Rightarrow> pystr" where
  "universal_newlines [] = []"
| "universal_newlines [c] = [if c = 13 then NL else c]"
| "universal_newlines (c # d # cs) =
     (if c = 13 \<and> d = NL then NL # universal_newlines cs
      else if c = 13 then NL # universal_newlines (d # cs)
      else c # universal_newlines (d # cs))"

datatype extract_error =
    PasswordProtected
  | PdfError
  | DocxError
  | TextractMissing
  | DocError
  | UndecodableEncodings
  | TxtError
  | UnsupportedFormat

text \<open>
  \<^verbatim>\<open>
  encodings = ['utf-8', 'latin-1', 'cp1252', 'iso-8859-1']
  for encoding in encodings:
      try:
          with open(file_path, 'r', encoding=encoding) as file:
              text = file.read()
              lines = [line.strip() for line in text.split('\n')]
              clean_text = "\n".join(line for line in lines if line)
              return clean_text
      except UnicodeDecodeError:
          continue
  raise ValueError(f"Unable to decode file with common encodings: ...")
  \<close>
  The file is its bytes, or \<open>None\<close> when it cannot be opened or read: that exception is
  not a \<open>UnicodeDecodeError\<close> and becomes the \<open>ValueError\<close> of the outer handler.
\<close>

definition encodings :: "encoding list" where
  "encodings = [UTF_8, LATIN_1, CP1252, ISO_8859_1]"

fun try_encodings :: "encoding list \<Rightarrow> byte list \<Rightarrow> extract_error + pystr" where
  "try_encodings [] bs = Inl UndecodableEncodings"
| "try_encodings (encoding # rest) bs =
     (case decode encoding bs of
        Some text \<Rightarrow> Inr (clean_lines (universal_newlines text))
      | None \<Rightarrow> try_encodings rest bs)"

definition extract_from_txt :: "byte list option \<Rightarrow> extract_error + pystr" where
  "extract_from_txt opened =
     (case opened of
        None \<Rightarrow> Inl TxtError
      | Some bs \<Rightarrow> try_encodings encodings bs)"

text \<open>
  What \<open>PyPDF2.PdfReader\<close> shows of a PDF: whether it is encrypted, whether
  \<open>decrypt("")\<close> raises, and what \<open>extract_text()\<close> returns for each page.
\<close>

record pdf =
  is_encrypted :: bool
  decrypt_raises :: bool
  pages :: "pystr option list"

definition scanned_warning :: pystr where
  "scanned_warning =
     str ''[Warning: This appears to be a scanned or image-only PDF. '' @
     str ''No text could be extracted. Please provide a text-based PDF or use OCR.]''"

text \<open>\<open>if text and text.strip()\<close>\<close>

definition has_text_page :: "pystr option \<Rightarrow> bool" where
  "has_text_page text = (case text of None \<Rightarrow> False | Some t \<Rightarrow> t \<noteq> [] \<and> strip t \<noteq> [])"

text \<open>
  The page loop, on the pair \<open>(text_content, has_text)\<close>:
  \<^verbatim>\<open>
  for page_num in range(num_pages):
      text = pdf_reader.pages[page_num].extract_text()
      if text and text.strip():
          text_content.append(text.strip())
          has_text = True
  \<close>
\<close>

definition page_step :: "pystr list \<times> bool \<Rightarrow> pystr option \<Rightarrow> pystr list \<times> bool" where
  "page_step st text =
     (if has_text_page text then (fst st @ [strip (the text)], True) else st)"

text \<open>
  \<open>None\<close> for the reader: \<open>PdfReader\<close> or a page raises, which the handler turns into the
  \<open>ValueError\<close> "Error extracting text from PDF".
\<close>

definition extract_from_pdf :: "pdf option \<Rightarrow> extract_error + pystr" where
  "extract_from_pdf reader =
     (case reader of
        None \<Rightarrow> Inl PdfError
      | Some pdf_reader \<Rightarrow>
          if is_encrypted pdf_reader \<and> decrypt_raises pdf_reader then Inl PasswordProtected
          else
            let (collected, has_text) = foldl page_step ([], False) (pages pdf_reader);
                text_content = (if \<not> has_text then collected @ [scanned_warning] else collected)
            in Inr (join [NL] (map strip (filter (\<lambda>line. strip line \<noteq> []) text_content))))"

text \<open>What \<open>docx.Document\<close> shows: the paragraph texts, and for each table its rows of
  cell texts.\<close>

record docx =
  paragraphs :: "pystr list"
  tables :: "pystr list list list"

definition extract_from_docx :: "docx option \<Rightarrow> extract_error + pystr" where
  "extract_from_docx document =
     (case document of
        None \<Rightarrow> Inl DocxError
      | Some doc \<Rightarrow>
          let text_content =
                map strip (filter (\<lambda>p. strip p \<noteq> []) (paragraphs doc)) @
                map strip (filter (\<lambda>c. strip c \<noteq> []) (concat (concat (tables doc))))
          in Inr (join [NL] (filter (\<lambda>line. line \<noteq> []) text_content)))"

text \<open>\<open>textract.process(file_path).decode('utf-8')\<close>: the import fails, the conversion
  fails, or it returns bytes.\<close>

datatype textract = NotInstalled | ProcessFails | Output "byte list"

definition extract_from_doc :: "textract \<Rightarrow> extract_error + pystr" where
  "extract_from_doc result =
     (case result of
        NotInstalled \<Rightarrow> Inl TextractMissing
      | ProcessFails \<Rightarrow> Inl DocError
      | Output bs \<Rightarrow>
          (case decode UTF_8 bs of
             None \<Rightarrow> Inl DocError
           | Some text \<Rightarrow> Inr (clean_lines text)))"

text \<open>
  A file on disk: its lower-cased suffix \<open>Path(file_path).suffix.lower()\<close>, its bytes,
  and what each of the three libraries makes of it.
\<close>

record document =
  extension :: pystr
  content :: "byte list option"
  as_pdf :: "pdf option"
  as_docx :: "docx option"
  as_doc :: textract

text \<open>\<open>TextExtractor.extract\<close> (the name \<open>extract\<close> is a keyword of Isabelle).\<close>

definition extract_file :: "document \<Rightarrow> extract_error + pystr" where
  "extract_file f =
     (if extension f = str ''.pdf'' then extract_from_pdf (as_pdf f)
      else if extension f = str ''.docx'' then extract_from_docx (as_docx f)
      else if extension f = str ''.doc'' then extract_from_doc (as_doc f)
      else if extension f = str ''.txt'' then extract_from_txt (content f)
      else Inl UnsupportedFormat)"

section \<open>gemini\_analyzer.py: the response recovery parser\<close>

text \<open>\<open>s.find(c)\<close> and \<open>s.rfind(c)\<close> for a single character: the lowest and the highest
  index of \<open>c\<close>, or \<open>-1\<close>. \<open>s[i:j]\<close> for indices that are not negative.\<close>

definition str_find :: "pystr \<Rightarrow> codepoint \<Rightarrow> int" where
  "str_find s c = (if c \<in> set s then int (length (takeWhile (\<lambda>x. x \<noteq> c) s)) else - 1)"

definition str_rfind :: "pystr \<Rightarrow> codepoint \<Rightarrow> int" where
  "str_rfind s c =
     (if c \<in> set s then int (length s) - 1 - int (length (takeWhile (\<lambda>x. x \<noteq> c) (rev s)))
      else - 1)"

definition slice :: "pystr \<Rightarrow> int \<Rightarrow> int \<Rightarrow> pystr" where
  "slice s i j = take (nat (j - i)) (drop (nat i) s)"

definition LBRACE :: codepoint where "LBRACE = 123"

definition RBRACE :: codepoint where "RBRACE = 125"

text \<open>
  \<^verbatim>\<open>
  if cleaned_text.startswith('```json'):
      cleaned_text = cleaned_text[7:]
  elif cleaned_text.startswith('```'):
      cleaned_text = cleaned_text[3:]
  if cleaned_text.endswith('```'):
      cleaned_text = cleaned_text[:-3]
  \<close>
\<close>

definition remove_markers :: "pystr \<Rightarrow> pystr" where
  "remove_markers t =
     (let t1 = (if startswith t (str ''```json'') then drop 7 t
                else if startswith t (str ''```'') then drop 3 t
                else t)
      in if endswith t1 (str ''```'') then take (length t1 - 3) t1 else t1)"

text \<open>
  \<^verbatim>\<open>
  start_idx = cleaned_text.find('{')
  end_idx = cleaned_text.rfind('}')
  if start_idx != -1 and end_idx != -1:
      cleaned_text = cleaned_text[start_idx:end_idx + 1]
  \<close>
\<close>

definition json_span :: "pystr \<Rightarrow> pystr" where
  "json_span t =
     (let start_idx = str_find t LBRACE; end_idx = str_rfind t RBRACE
      in if start_idx \<noteq> - 1 \<and> end_idx \<noteq> - 1 then slice t start_idx (end_idx + 1) else t)"

text \<open>The text before the search for the braces, and the text handed to \<open>json.loads\<close>.\<close>

definition trimmed_text :: "pystr \<Rightarrow> pystr" where
  "trimmed_text response_text = strip (remove_markers (strip response_text))"

definition cleaned_text :: "pystr \<Rightarrow> pystr" where
  "cleaned_text response_text = json_span (trimmed_text response_text)"

text \<open>
  \<open>field in parsed_data\<close> and \<open>parsed_data[field] = v\<close> on whatever \<open>json.loads\<close> returned.
  In a \<open>dict\<close> the test looks for the key, in a \<open>list\<close> for an equal element, in a \<open>str\<close>
  for a substring; on the other values it raises \<open>TypeError\<close>, and so does the assignment
  on everything but a \<open>dict\<close>.
\<close>

fun contains_str :: "pystr \<Rightarrow> pystr \<Rightarrow> bool" where
  "contains_str [] p = (p = [])"
| "contains_str (c # cs) p = (startswith (c # cs) p \<or> contains_str cs p)"

fun py_in :: "pystr \<Rightarrow> json \<Rightarrow> builtin_error + bool" where
  "py_in field (JObj d) = Inr (field \<in> fst ` set d)"
| "py_in field (JArr xs) = Inr (JStr field \<in> set xs)"
| "py_in field (JStr s) = Inr (contains_str s field)"
| "py_in field _ = Inl TypeError"

fun set_item :: "json \<Rightarrow> pystr \<Rightarrow> json \<Rightarrow> builtin_error + json" where
  "set_item (JObj d) field v = Inr (JObj (AList.update field v d))"
| "set_item _ field v = Inl TypeError"

definition required_fields :: "pystr list" where
  "required_fields = [str ''skills'', str ''experience'', str ''tech_stack'', str ''summary'']"

text \<open>\<open>{} if field in ['experience', 'tech_stack'] else [] if field == 'skills' else ""\<close>\<close>

definition default_value :: "pystr \<Rightarrow> json" where
  "default_value field =
     (if field \<in> set [str ''experience'', str ''tech_stack''] then JObj []
      else if field = str ''skills'' then JArr []
      else JStr [])"

text \<open>
  \<^verbatim>\<open>
  for field in required_fields:
      if field not in parsed_data:
          parsed_data[field] = ...
  \<close>
\<close>

fun fill_fields :: "pystr list \<Rightarrow> json \<Rightarrow> builtin_error + json" where
  "fill_fields [] parsed_data = Inr parsed_data"
| "fill_fields (field # remaining) parsed_data =
     (case py_in field parsed_data of
        Inl e \<Rightarrow> Inl e
      | Inr True \<Rightarrow> fill_fields remaining parsed_data
      | Inr False \<Rightarrow>
          (case set_item parsed_data field (default_value field) of
             Inl e \<Rightarrow> Inl e
           | Inr parsed_data' \<Rightarrow> fill_fields remaining parsed_data'))"

text \<open>
  The two handlers both raise \<open>ValueError\<close>: "Failed to parse Gemini response as JSON"
  after \<open>json.JSONDecodeError\<close>, "Error processing Gemini response" after any other
  exception. Only the first prints a line, with the first 500 characters of the raw
  response:
  \<^verbatim>\<open>print(f"... Failed to parse JSON. Response preview: {response_text[:500]}...")\<close>
  The line starts with the warning sign U+26A0 U+FE0F.
\<close>

datatype parse_error = FailedToParseJSON | ErrorProcessingResponse

definition preview :: "pystr \<Rightarrow> pystr" where
  "preview response_text = take 500 response_text"

definition preview_line :: "pystr \<Rightarrow> pystr" where
  "preview_line response_text =
     [9888, 65039] @ str '' Failed to parse JSON. Response preview: '' @
     preview response_text @ str ''...''"

text \<open>
  \<open>json.loads\<close> is Python's and is the parameter \<open>loads\<close>. On a string it returns a value,
  raises \<open>json.JSONDecodeError\<close> on a text that is not JSON, or raises another exception:
  \<open>RecursionError\<close> on a text nested too deeply, \<open>ValueError\<close> on an integer literal longer
  than the interpreter's limit of digits. \<open>JSONDecodeError\<close> goes to the first handler, every
  other exception to the handler of \<open>Exception\<close>, as do the exceptions of the loop over the
  fields.
\<close>

datatype loads_error = JSONDecodeError | OtherException

text \<open>
  \<open>parse_gemini_response\<close>. The result is the list of the lines printed and the value
  returned or the error raised.
\<close>

definition parse_gemini_response ::
  "(pystr \<Rightarrow> loads_error + json) \<Rightarrow> pystr \<Rightarrow> pystr list \<times> (parse_error + json)" where
  "parse_gemini_response loads response_text =
     (case loads (cleaned_text response_text) of
        Inl JSONDecodeError \<Rightarrow> ([preview_line response_text], Inl FailedToParseJSON)
      | Inl OtherException \<Rightarrow> ([], Inl ErrorProcessingResponse)
      | Inr parsed_data \<Rightarrow>
          (case fill_fields required_fields parsed_data of
             Inl e \<Rightarrow> ([], Inl ErrorProcessingResponse)
           | Inr filled \<Rightarrow> ([], Inr filled)))"

text \<open>
  A decoder to run the parser on concrete responses: \<open>json.loads\<close> on the fragment of
  JSON without string escapes, fractions, exponents, \<open>NaN\<close> and \<open>Infinity\<close> (objects,
  arrays, plain strings, integers, \<open>true\<close>, \<open>false\<close>, \<open>null\<close>), and \<open>JSONDecodeError\<close> on
  every other text.
  Each call uses up one unit of \<open>fuel\<close>.
\<close>

definition json_ws :: "codepoint \<Rightarrow> bool" where
  "json_ws c \<longleftrightarrow> c = 32 \<or> c = 9 \<or> c = 10 \<or> c = 13"

definition skip_ws :: "pystr \<Rightarrow> pystr" where
  "skip_ws s = dropWhile json_ws s"

fun scan_string :: "pystr \<Rightarrow> (pystr \<times> pystr) option" where
  "scan_string [] = None"
| "scan_string (c # cs) =
     (if c = 34 then Some ([], cs)
      else if c = 92 \<or> c < 32 then None
      else map_option (\<lambda>(s, r). (c # s, r)) (scan_string cs))"

definition is_digit :: "codepoint \<Rightarrow> bool" where
  "is_digit c \<longleftrightarrow> 48 \<le> c \<and> c \<le> 57"

definition digits_value :: "pystr \<Rightarrow> int" where
  "digits_value ds = foldl (\<lambda>n c. 10 * n + (int c - 48)) 0 ds"

definition scan_int :: "pystr \<Rightarrow> (json \<times> pystr) option" where
  "scan_int s =
     (let neg = (s \<noteq> [] \<and> hd s = 45);
          body = (if neg then tl s else s);
          ds = takeWhile is_digit body;
          r = dropWhile is_digit body
      in if ds = [] \<or> (hd ds = 48 \<and> length ds > 1) then None
         else if r \<noteq> [] \<and> hd r \<in> {46, 69, 101} then None
         else Some (JInt (if neg then - digits_value ds else digits_value ds), r))"

fun decode_value :: "nat \<Rightarrow> pystr \<Rightarrow> (json \<times> pystr) option"
  and decode_members :: "nat \<Rightarrow> (pystr \<times> json) list \<Rightarrow> pystr \<Rightarrow> (json \<times> pystr) option"
  and decode_elements :: "nat \<Rightarrow> json list \<Rightarrow> pystr \<Rightarrow> (json \<times> pystr) option" where
  "decode_value 0 s = None"
| "decode_value (Suc fuel) s =
     (case skip_ws s of
        [] \<Rightarrow> None
      | c # r \<Rightarrow>
          if c = LBRACE then
            (if skip_ws r \<noteq> [] \<and> hd (skip_ws r) = RBRACE then Some (JObj [], tl (skip_ws r))
             else decode_members fuel [] r)
          else if c = 91 then
            (if skip_ws r \<noteq> [] \<and> hd (skip_ws r) = 93 then Some (JArr [], tl (skip_ws r))
             else decode_elements fuel [] r)
          else if c = 34 then map_option (\<lambda>(t, r'). (JStr t, r')) (scan_string r)
          else if startswith (c # r) (str ''true'') then Some (JBool True, drop 4 (c # r))
          else if startswith (c # r) (str ''false'') then Some (JBool False, drop 5 (c # r))
          else if startswith (c # r) (str ''null'') then Some (JNull, drop 4 (c # r))
          else scan_int (c # r))"
| "decode_members 0 acc s = None"
| "decode_members (Suc fuel) acc s =
     (case skip_ws s of
        [] \<Rightarrow> None
      | c # r \<Rightarrow>
          if c \<noteq> 34 then None
          else
            (case scan_string r of
               None \<Rightarrow> None
             | Some (key, r1) \<Rightarrow>
                 (case skip_ws r1 of
                    [] \<Rightarrow> None
                  | c1 # r2 \<Rightarrow>
                      if c1 \<noteq> 58 then None
                      else
                        (case decode_value fuel r2 of
                           None \<Rightarrow> None
                         | Some (v, r3) \<Rightarrow>
                             (case skip_ws r3 of
                                [] \<Rightarrow> None
                              | c2 # r4 \<Rightarrow>
                                  if c2 = 44 then decode_members fuel (AList.update key v acc) r4
                                  else if c2 = RBRACE then Some (JObj (AList.update key v acc), r4)
                                  else None)))))"
| "decode_elements 0 acc s = None"
| "decode_elements (Suc fuel) acc s =
     (case decode_value fuel s of
        None \<Rightarrow> None
      | Some (v, r) \<Rightarrow>
          (case skip_ws r of
             [] \<Rightarrow> None
           | c # r1 \<Rightarrow>
               if c = 44 then decode_elements fuel (acc @ [v]) r1
               else if c = 93 then Some (JArr (acc @ [v]), r1)
               else None))"

definition loads_plain :: "pystr \<Rightarrow> loads_error + json" where
  "loads_plain s =
     (case decode_value (Suc (length s)) s of
        None \<Rightarrow> Inl JSONDecodeError
      | Some (v, r) \<Rightarrow> if skip_ws r = [] then Inr v else Inl JSONDecodeError)"

text \<open>
  A text \<open>core\<close> that starts with an opening and ends with a closing brace, as every JSON
  object does, and a text that holds it with no opening brace before it and no closing
  brace after it.
\<close>

definition braced :: "pystr \<Rightarrow> bool" where
  "braced core \<longleftrightarrow> core \<noteq> [] \<and> hd core = LBRACE \<and> last core = RBRACE"

definition framed :: "pystr \<Rightarrow> pystr \<Rightarrow> bool" where
  "framed core t \<longleftrightarrow> (\<exists>pre post. t = pre @ core @ post \<and> LBRACE \<notin> set pre \<and> RBRACE \<notin> set post)"

text \<open>A response that puts \<open>body\<close> between the fences and \<open>prose\<close> before them.\<close>

definition wrap_in_fences :: "pystr \<Rightarrow> pystr \<Rightarrow> pystr" where
  "wrap_in_fences prose body = prose @ str ''```json'' @ [NL] @ body @ [NL] @ str ''```''"

section \<open>preprocessor.py\<close>

text \<open>
  \<open>re.sub(r' +', ' ', text)\<close>: every maximal run of spaces becomes one space.
\<close>

function collapse_spaces :: "pystr \<Rightarrow> pystr" where
  "collapse_spaces [] = []"
| "collapse_spaces (c # cs) =
     (if c = SP then SP # collapse_spaces (dropWhile (\<lambda>x. x = SP) cs)
      else c # collapse_spaces cs)"
  by pat_completeness auto
termination
  by (relation "measure length") (auto simp: less_Suc_eq_le length_dropWhile_le)

text \<open>
  \<open>re.sub(r'\n\s*\n+', '\n\n', text)\<close>. A match starts at a newline; \<open>\s*\<close> is greedy and
  gives back characters until a newline follows, so the match ends at the last newline
  of the white space that follows its first newline, and there is no match at a newline
  whose following white space holds no newline. The scan goes on after the match.
\<close>

definition after_last_newline :: "pystr \<Rightarrow> pystr" where
  "after_last_newline run = rev (takeWhile (\<lambda>x. x \<noteq> NL) (rev run))"

function collapse_blank_lines :: "pystr \<Rightarrow> pystr" where
  "collapse_blank_lines [] = []"
| "collapse_blank_lines (c # cs) =
     (if c = NL \<and> NL \<in> set (takeWhile isspace cs)
      then NL # NL #
           collapse_blank_lines (after_last_newline (takeWhile isspace cs) @ dropWhile isspace cs)
      else c # collapse_blank_lines cs)"
  by pat_completeness auto
termination
proof (relation "measure length")
  fix c :: codepoint and cs :: pystr
  have "length (after_last_newline (takeWhile isspace cs)) \<le> length (takeWhile isspace cs)"
    unfolding after_last_newline_def
    by (metis length_rev length_takeWhile_le)
  moreover have "length (takeWhile isspace cs) + length (dropWhile isspace cs) = length cs"
    by (metis length_append takeWhile_dropWhile_id)
  ultimately show
    "(after_last_newline (takeWhile isspace cs) @ dropWhile isspace cs, c # cs) \<in> measure length"
    by simp
qed simp_all

text \<open>
  \<^verbatim>\<open>
  def remove_extra_whitespace(text: str) -> str:
      text = re.sub(r' +', ' ', text)
      text = re.sub(r'\n\s*\n+', '\n\n', text)
      lines = [line.strip() for line in text.split('\n')]
      return '\n'.join(lines)
  \<close>
\<close>

definition strip_lines :: "pystr \<Rightarrow> pystr" where
  "strip_lines text = join [NL] (map strip (split_lines text))"

definition remove_extra_whitespace :: "pystr \<Rightarrow> pystr" where
  "remove_extra_whitespace text = strip_lines (collapse_blank_lines (collapse_spaces text))"

text \<open>
  The characters that \<open>re.sub(r'[^a-zA-Z0-9\s.,;:()\-+#/\n]', '', text)\<close> keeps when
  \<open>preserve_basic\<close> is true, and that \<open>re.sub(r'[^a-zA-Z0-9\s\n]', '', text)\<close> keeps when it
  is false.
\<close>

definition alphanumeric :: "codepoint \<Rightarrow> bool" where
  "alphanumeric c \<longleftrightarrow> (97 \<le> c \<and> c \<le> 122) \<or> (65 \<le> c \<and> c \<le> 90) \<or> (48 \<le> c \<and> c \<le> 57)"

definition allowed_char :: "bool \<Rightarrow> codepoint \<Rightarrow> bool" where
  "allowed_char preserve_basic c \<longleftrightarrow>
     alphanumeric c \<or> isspace c \<or> c = NL \<or> (preserve_basic \<and> c \<in> set (str ''.,;:()-+#/''))"

definition remove_special_characters :: "pystr \<Rightarrow> bool \<Rightarrow> pystr" where
  "remove_special_characters text preserve_basic = filter (allowed_char preserve_basic) text"

datatype preprocess_error = EmptyText | EmptyAfterPreprocessing

text \<open>
  \<^verbatim>\<open>
  def preprocess(cls, text: str, aggressive: bool = False) -> str:
      if not text or not text.strip():
          raise ValueError("Empty text provided for preprocessing")
      text = cls.remove_extra_whitespace(text)
      text = cls.remove_special_characters(text, preserve_basic=not aggressive)
      text = text.strip()
      if not text:
          raise ValueError("Text became empty after preprocessing")
      return text
  \<close>
\<close>

definition preprocess :: "pystr \<Rightarrow> bool \<Rightarrow> preprocess_error + pystr" where
  "preprocess text aggressive =
     (if text = [] \<or> strip text = [] then Inl EmptyText
      else
        let text1 = remove_extra_whitespace text;
            text2 = remove_special_characters text1 (\<not> aggressive);
            text3 = strip text2
        in if text3 = [] then Inl EmptyAfterPreprocessing else Inr text3)"

text \<open>No two spaces side by side.\<close>

definition no_double_space :: "pystr \<Rightarrow> bool" where
  "no_double_space t \<longleftrightarrow> successively (\<lambda>x y. \<not> (x = SP \<and> y = SP)) t"

text \<open>
  White space next to a newline is a newline: each line is stripped.
\<close>

definition newlines_tidy :: "pystr \<Rightarrow> bool" where
  "newlines_tidy t \<longleftrightarrow>
     successively
       (\<lambda>x y. (x = NL \<longrightarrow> y = NL \<or> \<not> isspace y) \<and> (y = NL \<longrightarrow> x = NL \<or> \<not> isspace x)) t"

text \<open>
  No run of white space holds more than two newlines, when \<open>k\<close> newlines of the current
  run have been passed already.
\<close>

fun newline_budget :: "nat \<Rightarrow> pystr \<Rightarrow> bool" where
  "newline_budget k [] = True"
| "newline_budget k (c # cs) =
     (if c = NL then k < 2 \<and> newline_budget (Suc k) cs
      else if isspace c then newline_budget k cs
      else newline_budget 0 cs)"

section \<open>Theorems\<close>

subsection \<open>The score normalizer\<close>

lemma validate_skill_entry:
  assumes "skill_entry s"
  shows "\<exists>s'. validate_skill conv s = Inr s' \<and> normalised s s'"
proof (cases s)
  case (JObj d)
  show ?thesis
  proof (cases "map_of d score_key")
    case None
    with JObj show ?thesis
      by (simp add: normalised_def score_of_def field_of_def update_conv')
  next
    case (Some v)
    with assms JObj obtain n where v: "v = JInt n"
      by (auto simp: skill_entry_def split: json.splits)
    with Some JObj show ?thesis
      by (simp add: normalised_def score_of_def field_of_def update_conv')
  qed
next
  case JNull with assms show ?thesis by (simp add: skill_entry_def)
next
  case (JBool b) with assms show ?thesis by (simp add: skill_entry_def)
next
  case (JInt n) with assms show ?thesis by (simp add: skill_entry_def)
next
  case (JFloat f) with assms show ?thesis by (simp add: skill_entry_def)
next
  case (JStr t) with assms show ?thesis by (simp add: skill_entry_def)
next
  case (JArr xs) with assms show ?thesis by (simp add: skill_entry_def)
qed

lemma validate_skill_scores_all2:
  assumes "\<forall>s \<in> set skills. skill_entry s"
  shows "\<exists>out. validate_skill_scores conv skills = Inr out \<and> list_all2 normalised skills out"
  using assms
proof (induction skills)
  case Nil
  then show ?case by simp
next
  case (Cons s skills)
  from Cons.prems have "skill_entry s" by simp
  then obtain s' where s': "validate_skill conv s = Inr s'" "normalised s s'"
    using validate_skill_entry by blast
  from Cons obtain out where
    out: "validate_skill_scores conv skills = Inr out" "list_all2 normalised skills out"
    by auto
  have "validate_skill_scores conv (s # skills) = Inr (s' # out)"
    using s'(1) out(1) by simp
  moreover have "list_all2 normalised (s # skills) (s' # out)"
    using s'(2) out(2) by simp
  ultimately show ?case by blast
qed

text \<open>
  Claim C4. The score normalizer is total on every list of skill entries (each a
  dictionary whose score, when present, is an integer): it returns a list of the same
  length in which an entry that had the integer score \<open>n\<close> has the score \<open>n\<close> clamped into
  1..10, an entry without a score has the score 5, and every other field is as it was.
  No out-of-range and no missing score is rejected.
\<close>

theorem validate_skill_scores_clamps:
  assumes "list_all skill_entry skills"
  shows "\<exists>out. validate_skill_scores conv skills = Inr out \<and> length out = length skills \<and>
           (\<forall>i < length skills.
              (\<forall>n. score_of (skills ! i) = Some (JInt n) \<longrightarrow>
                   score_of (out ! i) = Some (JInt (if n < 1 then 1 else if 10 < n then 10 else n))) \<and>
              (score_of (skills ! i) = None \<longrightarrow> score_of (out ! i) = Some (JInt 5)) \<and>
              (\<forall>k. k \<noteq> score_key \<longrightarrow> field_of k (out ! i) = field_of k (skills ! i)))"
proof -
  from assms have "\<forall>s \<in> set skills. skill_entry s"
    by (simp add: list_all_iff)
  from validate_skill_scores_all2 [OF this, of conv] obtain out where
    out: "validate_skill_scores conv skills = Inr out" "list_all2 normalised skills out"
    by blast
  from out(2) have len: "length out = length skills"
    by (simp add: list_all2_lengthD)
  from out(2) have nth: "\<forall>i < length skills. normalised (skills ! i) (out ! i)"
    by (simp add: list_all2_conv_all_nth)
  show ?thesis
    using out(1) len nth unfolding normalised_def by blast
qed

theorem validate_skill_scores_clamps_witness:
  "list_all skill_entry
      [JObj [(str ''name'', JStr (str ''Python'')), (score_key, JInt 15)],
       JObj [(score_key, JInt 0)],
       JObj [(str ''name'', JStr (str ''Go''))]] \<and>
   (\<exists>out. validate_skill_scores (\<lambda>s. None)
             [JObj [(str ''name'', JStr (str ''Python'')), (score_key, JInt 15)],
              JObj [(score_key, JInt 0)],
              JObj [(str ''name'', JStr (str ''Go''))]] = Inr out \<and>
          score_of (out ! 0) = Some (JInt 10) \<and>
          score_of (out ! 1) = Some (JInt 1) \<and>
          score_of (out ! 2) = Some (JInt 5) \<and>
          field_of (str ''name'') (out ! 0) = Some (JStr (str ''Python'')))"
proof -
  let ?skills = "[JObj [(str ''name'', JStr (str ''Python'')), (score_key, JInt 15)],
                 JObj [(score_key, JInt 0)],
                 JObj [(str ''name'', JStr (str ''Go''))]]"
  have h: "list_all skill_entry ?skills"
    by (simp add: skill_entry_def score_key_def str_def)
  from validate_skill_scores_clamps [OF h, of "\<lambda>s. None"] obtain out where
    out: "validate_skill_scores (\<lambda>s. None) ?skills = Inr out"
    and nth: "\<forall>i < length ?skills.
              (\<forall>n. score_of (?skills ! i) = Some (JInt n) \<longrightarrow>
                   score_of (out ! i) = Some (JInt (if n < 1 then 1 else if 10 < n then 10 else n))) \<and>
              (score_of (?skills ! i) = None \<longrightarrow> score_of (out ! i) = Some (JInt 5)) \<and>
              (\<forall>k. k \<noteq> score_key \<longrightarrow> field_of k (out ! i) = field_of k (?skills ! i))"
    by blast
  from nth [rule_format, of 0] have a: "score_of (out ! 0) = Some (JInt 10)"
    "field_of (str ''name'') (out ! 0) = Some (JStr (str ''Python''))"
    by (simp_all add: score_of_def field_of_def score_key_def str_def)
  from nth [rule_format, of 1] have b: "score_of (out ! 1) = Some (JInt 1)"
    by (simp add: score_of_def score_key_def str_def)
  from nth [rule_format, of 2] have c: "score_of (out ! 2) = Some (JInt 5)"
    by (simp add: score_of_def score_key_def str_def)
  from h out a b c show ?thesis by blast
qed

subsection \<open>The profile summary\<close>

lemma map_of_increment:
  "map_of (increment l d) k =
     (if k = l then Some (case map_of d l of None \<Rightarrow> 1 | Some n \<Rightarrow> n + 1) else map_of d k)"
  by (simp add: increment_def update_conv')

lemma foldl_repo_step:
  "foldl repo_step st rs =
     (let ks = kept rs in
      \<lparr> language_count = language_count (foldl repo_step st rs),
        total_stars = total_stars st + sum_list (map stargazers_count ks),
        total_forks = total_forks st + sum_list (map forks_count ks),
        topics_used = topics_used st \<union> (\<Union>r \<in> set ks. set (topics r)),
        repos_summary = repos_summary st @ map summary_of ks \<rparr>)"
proof (induction rs arbitrary: st)
  case Nil
  show ?case by (simp add: kept_def)
next
  case (Cons r rs)
  show ?case
  proof (cases "skipped r")
    case True
    have "foldl repo_step st (r # rs) = foldl repo_step st rs"
      using True by (simp add: repo_step_def)
    moreover have "kept (r # rs) = kept rs"
      using True by (simp add: kept_def)
    ultimately show ?thesis
      using Cons.IH [of st] by simp
  next
    case False
    have "foldl repo_step st (r # rs) = foldl repo_step (repo_step st r) rs"
      by simp
    moreover have "kept (r # rs) = r # kept rs"
      using False by (simp add: kept_def)
    ultimately show ?thesis
      using Cons.IH [of "repo_step st r"] False
      by (simp add: Let_def repo_step_def Un_assoc add.assoc)
  qed
qed

lemma foldl_language_count:
  "count_in (language_count (foldl repo_step st rs)) l =
     count_in (language_count st) l + length (filter (counted_language l) (kept rs))"
proof (induction rs arbitrary: st)
  case Nil
  show ?case by (simp add: kept_def)
next
  case (Cons r rs)
  show ?case
  proof (cases "skipped r")
    case True
    then show ?thesis
      using Cons.IH [of st] by (simp add: repo_step_def kept_def)
  next
    case False
    have step: "count_in (language_count (repo_step st r)) l =
        count_in (language_count st) l + (if counted_language l r then 1 else 0)"
      using False
      by (auto simp: repo_step_def count_in_def counted_language_def map_of_increment
            split: option.splits)
    show ?thesis
      using Cons.IH [of "repo_step st r"] False step
      by (simp add: kept_def)
  qed
qed

lemma foldl_language_count_positive:
  assumes "\<forall>l. map_of (language_count st) l \<noteq> Some 0"
  shows "\<forall>l. map_of (language_count (foldl repo_step st rs)) l \<noteq> Some 0"
  using assms
proof (induction rs arbitrary: st)
  case Nil
  then show ?case by simp
next
  case (Cons r rs)
  have "\<forall>l. map_of (language_count (repo_step st r)) l \<noteq> Some 0"
    using Cons.prems
    by (auto simp: repo_step_def map_of_increment split: option.splits)
  from Cons.IH [OF this] show ?case by simp
qed

lemma languages_used_counts:
  "map_of (language_count (foldl repo_step initial_state rs)) l =
     (let n = length (filter (counted_language l) (kept rs)) in if n = 0 then None else Some n)"
proof -
  let ?d = "language_count (foldl repo_step initial_state rs)"
  have pos: "map_of ?d l \<noteq> Some 0"
    using foldl_language_count_positive [of initial_state rs]
    by (simp add: initial_state_def)
  have "count_in ?d l = length (filter (counted_language l) (kept rs))"
    using foldl_language_count [of initial_state rs l]
    by (simp add: initial_state_def count_in_def)
  with pos show ?thesis
    by (cases "map_of ?d l") (auto simp: count_in_def Let_def)
qed

lemma sort_by_stars_descending: "sorted_wrt (\<lambda>a b. stars b \<le> stars a) (sort_by_stars xs)"
proof -
  have "sorted (map (\<lambda>x. - stars x) (sort_by_stars xs))"
    by (simp add: sort_by_stars_def)
  then show ?thesis
    by (simp add: sorted_map)
qed

text \<open>
  Claim C9. For every list of fetched repositories the summary is returned, with
  \<open>total_repositories\<close> the length of the whole list, while the language counts, the
  star and fork totals, the topics and the repository summaries range over the kept
  repositories only: a fork with zero stars is not among them. The repository summaries
  are those of the kept repositories sorted by stars, highest first, cut to the first 20.
\<close>

theorem summarize_data_skips_unstarred_forks:
  "\<exists>s. summarize_data (Inr y) repo_data = Inr s \<and>
       total_repositories s = length repo_data \<and>
       total_stars_earned s = sum_list (map stargazers_count (kept repo_data)) \<and>
       total_forks_out s = sum_list (map forks_count (kept repo_data)) \<and>
       topics_explored s = (\<Union>r \<in> set (kept repo_data). set (topics r)) \<and>
       (\<forall>l. map_of (languages_used s) l =
            (let n = length (filter (counted_language l) (kept repo_data))
             in if n = 0 then None else Some n)) \<and>
       repositories s = take 20 (sort_by_stars (map summary_of (kept repo_data))) \<and>
       sorted_wrt (\<lambda>a b. stars b \<le> stars a) (repositories s) \<and>
       length (repositories s) \<le> 20 \<and>
       (\<forall>r \<in> set repo_data. fork r \<and> stargazers_count r = 0 \<longrightarrow> r \<notin> set (kept repo_data))"
proof -
  define st where "st = foldl repo_step initial_state repo_data"
  define s where "s =
      \<lparr> total_repositories = length repo_data,
        languages_used = language_count st,
        total_stars_earned = total_stars st,
        total_forks_out = total_forks st,
        topics_explored = topics_used st,
        repositories = take 20 (sort_by_stars (repos_summary st)) \<rparr>"
  have fold: "st =
      \<lparr> language_count = language_count st,
        total_stars = sum_list (map stargazers_count (kept repo_data)),
        total_forks = sum_list (map forks_count (kept repo_data)),
        topics_used = (\<Union>r \<in> set (kept repo_data). set (topics r)),
        repos_summary = map summary_of (kept repo_data) \<rparr>"
    using foldl_repo_step [of initial_state repo_data]
    by (simp add: st_def Let_def initial_state_def)
  have 1: "summarize_data (Inr y) repo_data = Inr s"
    by (simp add: summarize_data_def s_def st_def Let_def)
  have 2: "total_repositories s = length repo_data"
    by (simp add: s_def)
  have 3: "total_stars_earned s = sum_list (map stargazers_count (kept repo_data))"
    using fold by (simp add: s_def) (metis summary_state.select_convs(2))
  have 4: "total_forks_out s = sum_list (map forks_count (kept repo_data))"
    using fold by (simp add: s_def) (metis summary_state.select_convs(3))
  have 5: "topics_explored s = (\<Union>r \<in> set (kept repo_data). set (topics r))"
    using fold by (simp add: s_def) (metis summary_state.select_convs(4))
  have 6: "\<forall>l. map_of (languages_used s) l =
            (let n = length (filter (counted_language l) (kept repo_data))
             in if n = 0 then None else Some n)"
    using languages_used_counts [of repo_data] by (simp add: s_def st_def)
  have rs: "repos_summary st = map summary_of (kept repo_data)"
    using fold by (metis summary_state.select_convs(5))
  have 7: "repositories s = take 20 (sort_by_stars (map summary_of (kept repo_data)))"
    using rs by (simp add: s_def)
  have 8: "sorted_wrt (\<lambda>a b. stars b \<le> stars a) (repositories s)"
    unfolding 7 by (rule sorted_wrt_take) (rule sort_by_stars_descending)
  have 9: "length (repositories s) \<le> 20"
    unfolding 7 by simp
  have 10: "\<forall>r \<in> set repo_data. fork r \<and> stargazers_count r = 0 \<longrightarrow> r \<notin> set (kept repo_data)"
    by (simp add: kept_def skipped_def)
  from 1 2 3 4 5 6 7 8 9 10 show ?thesis by blast
qed

theorem summarize_data_skips_unstarred_forks_witness:
  "\<exists>s. summarize_data (Inr 2020)
          [\<lparr> name = str ''app'', description = None, language = Some (str ''Python''),
             stargazers_count = 2, forks_count = 1, topics = [str ''ml''],
             html_url = str ''u1'', updated_at = str ''2024'', repo_size = 10, fork = False \<rparr>,
           \<lparr> name = str ''copy'', description = None, language = Some (str ''Go''),
             stargazers_count = 0, forks_count = 3, topics = [str ''web''],
             html_url = str ''u2'', updated_at = str ''2023'', repo_size = 20, fork = True \<rparr>,
           \<lparr> name = str ''lib'', description = Some (str ''d''), language = Some (str ''Python''),
             stargazers_count = 5, forks_count = 4, topics = [],
             html_url = str ''u3'', updated_at = str ''2022'', repo_size = 30, fork = True \<rparr>] = Inr s \<and>
       total_repositories s = 3 \<and>
       total_stars_earned s = 7 \<and>
       total_forks_out s = 5 \<and>
       topics_explored s = {str ''ml''} \<and>
       map_of (languages_used s) (str ''Go'') = None \<and>
       map_of (languages_used s) (str ''Python'') = Some 2 \<and>
       map stars (repositories s) = [5, 2]"
proof -
  let ?rs = "[\<lparr> name = str ''app'', description = None, language = Some (str ''Python''),
             stargazers_count = 2, forks_count = 1, topics = [str ''ml''],
             html_url = str ''u1'', updated_at = str ''2024'', repo_size = 10, fork = False \<rparr>,
           \<lparr> name = str ''copy'', description = None, language = Some (str ''Go''),
             stargazers_count = 0, forks_count = 3, topics = [str ''web''],
             html_url = str ''u2'', updated_at = str ''2023'', repo_size = 20, fork = True \<rparr>,
           \<lparr> name = str ''lib'', description = Some (str ''d''), language = Some (str ''Python''),
             stargazers_count = 5, forks_count = 4, topics = [],
             html_url = str ''u3'', updated_at = str ''2022'', repo_size = 30, fork = True \<rparr>]"
  have k: "kept ?rs = [?rs ! 0, ?rs ! 2]"
    by (simp add: kept_def skipped_def)
  from summarize_data_skips_unstarred_forks [of 2020 ?rs] obtain s where
    s: "summarize_data (Inr 2020) ?rs = Inr s"
      "total_repositories s = length ?rs"
      "total_stars_earned s = sum_list (map stargazers_count (kept ?rs))"
      "total_forks_out s = sum_list (map forks_count (kept ?rs))"
      "topics_explored s = (\<Union>r \<in> set (kept ?rs). set (topics r))"
      "\<forall>l. map_of (languages_used s) l =
            (let n = length (filter (counted_language l) (kept ?rs))
             in if n = 0 then None else Some n)"
      "repositories s = take 20 (sort_by_stars (map summary_of (kept ?rs)))"
    by (elim exE conjE) (rule that, assumption+)
  have 2: "total_repositories s = 3" using s(2) by simp
  have 3: "total_stars_earned s = 7" unfolding s(3) k by simp
  have 4: "total_forks_out s = 5" unfolding s(4) k by simp
  have 5: "topics_explored s = {str ''ml''}" unfolding s(5) k by simp
  have 6: "map_of (languages_used s) (str ''Go'') = None"
    using s(6) [rule_format, of "str ''Go''"] unfolding k
    by (simp add: counted_language_def str_def)
  have 7: "map_of (languages_used s) (str ''Python'') = Some 2"
    using s(6) [rule_format, of "str ''Python''"] unfolding k
    by (simp add: counted_language_def str_def)
  have 8: "map stars (repositories s) = [5, 2]"
    unfolding s(7) k by (simp add: sort_by_stars_def summary_of_def)
  show ?thesis
    by (rule exI [of _ s]) (simp only: s(1) 2 3 4 5 6 7 8 simp_thms)
qed

subsection \<open>Strings and lines\<close>

lemma isspace_NL [simp]: "isspace NL"
  by (simp add: isspace_def NL_def)

lemma isspace_SP [simp]: "isspace SP"
  by (simp add: isspace_def SP_def)

lemma rstrip_eq_Nil: "rstrip s = [] \<longleftrightarrow> (\<forall>c \<in> set s. isspace c)"
  by (simp add: rstrip_def dropWhile_eq_Nil_conv)

lemma lstrip_eq_Nil: "lstrip s = [] \<longleftrightarrow> (\<forall>c \<in> set s. isspace c)"
  by (simp add: lstrip_def dropWhile_eq_Nil_conv)

lemma set_lstrip: "set (lstrip s) \<subseteq> set s"
  by (simp add: lstrip_def set_dropWhileD subsetI)

lemma set_rstrip: "set (rstrip s) \<subseteq> set s"
  using set_dropWhileD [of _ isspace "rev s"] by (auto simp: rstrip_def)

lemma set_strip: "set (strip s) \<subseteq> set s"
  using set_lstrip [of s] set_rstrip [of "lstrip s"] by (auto simp: strip_def)

lemma lstrip_hd: "lstrip s \<noteq> [] \<Longrightarrow> \<not> isspace (hd (lstrip s))"
  unfolding lstrip_def by (rule hd_dropWhile)

lemma rstrip_last: "rstrip s \<noteq> [] \<Longrightarrow> \<not> isspace (last (rstrip s))"
proof -
  assume a: "rstrip s \<noteq> []"
  then have n: "dropWhile isspace (rev s) \<noteq> []"
    by (simp add: rstrip_def)
  then have "\<not> isspace (hd (dropWhile isspace (rev s)))"
    by (rule hd_dropWhile)
  with n show ?thesis
    by (simp add: rstrip_def last_rev)
qed

lemma lstrip_id: "s = [] \<or> \<not> isspace (hd s) \<Longrightarrow> lstrip s = s"
  by (cases s) (auto simp: lstrip_def)

lemma rstrip_id: "s = [] \<or> \<not> isspace (last s) \<Longrightarrow> rstrip s = s"
proof (cases "s = []")
  case True
  then show ?thesis by (simp add: rstrip_def)
next
  case False
  assume "s = [] \<or> \<not> isspace (last s)"
  with False have "\<not> isspace (hd (rev s))" "rev s \<noteq> []"
    by (simp_all add: hd_rev)
  then have "dropWhile isspace (rev s) = rev s"
    by (cases "rev s") auto
  then show ?thesis by (simp add: rstrip_def)
qed

lemma rstrip_append_nonspace: "\<not> isspace c \<Longrightarrow> rstrip (s @ [c]) = s @ [c]"
  by (simp add: rstrip_def)

lemma hd_rstrip: "\<not> isspace (hd s) \<Longrightarrow> s \<noteq> [] \<Longrightarrow> rstrip s \<noteq> [] \<and> hd (rstrip s) = hd s"
proof (induction s rule: rev_induct)
  case Nil
  then show ?case by simp
next
  case (snoc x xs)
  show ?case
  proof (cases "isspace x")
    case False
    then show ?thesis by (simp add: rstrip_def)
  next
    case True
    then have r: "rstrip (xs @ [x]) = rstrip xs"
      by (simp add: rstrip_def)
    from snoc.prems True have "xs \<noteq> []"
      by (cases xs) auto
    with snoc show ?thesis
      using r by simp
  qed
qed

lemma strip_eq_Nil: "strip s = [] \<longleftrightarrow> (\<forall>c \<in> set s. isspace c)"
proof
  assume "strip s = []"
  then have "\<forall>c \<in> set (lstrip s). isspace c"
    by (simp add: strip_def rstrip_eq_Nil)
  show "\<forall>c \<in> set s. isspace c"
  proof (cases "lstrip s = []")
    case True
    then show ?thesis by (simp add: lstrip_eq_Nil)
  next
    case False
    then have "\<not> isspace (hd (lstrip s))" by (rule lstrip_hd)
    moreover have "hd (lstrip s) \<in> set (lstrip s)" using False by simp
    ultimately show ?thesis
      using \<open>\<forall>c \<in> set (lstrip s). isspace c\<close> by blast
  qed
next
  assume "\<forall>c \<in> set s. isspace c"
  then have "lstrip s = []" by (simp add: lstrip_eq_Nil)
  then show "strip s = []" by (simp add: strip_def rstrip_def)
qed

lemma strip_hd: "strip s \<noteq> [] \<Longrightarrow> \<not> isspace (hd (strip s))"
proof -
  assume a: "strip s \<noteq> []"
  then have l: "lstrip s \<noteq> []"
    by (auto simp: strip_def rstrip_def)
  then have h: "\<not> isspace (hd (lstrip s))" by (rule lstrip_hd)
  from hd_rstrip [OF h l] show ?thesis
    using h by (simp add: strip_def)
qed

lemma strip_last: "strip s \<noteq> [] \<Longrightarrow> \<not> isspace (last (strip s))"
  unfolding strip_def by (rule rstrip_last)

lemma strip_id: "s = [] \<or> (\<not> isspace (hd s) \<and> \<not> isspace (last s)) \<Longrightarrow> strip s = s"
  by (auto simp: strip_def lstrip_id rstrip_id)

lemma strip_strip: "strip (strip s) = strip s"
  by (rule strip_id) (use strip_hd strip_last in blast)

lemma split_lines_nonempty: "split_lines s \<noteq> []"
  by (induction s) auto

lemma join_eq_Nil: "\<forall>l \<in> set ls. l \<noteq> [] \<Longrightarrow> join sep ls = [] \<longleftrightarrow> ls = []"
  by (induction sep ls rule: join.induct) auto

lemma split_lines_chars:
  "(\<forall>l \<in> set (split_lines s). \<forall>c \<in> set l. isspace c) \<longleftrightarrow> (\<forall>c \<in> set s. isspace c)"
proof (induction s)
  case Nil
  show ?case by simp
next
  case (Cons a s)
  obtain l ls where sp: "split_lines s = l # ls"
    using split_lines_nonempty [of s] by (cases "split_lines s") auto
  show ?case
    using Cons sp by auto
qed

lemma clean_lines_eq_Nil: "clean_lines text = [] \<longleftrightarrow> (\<forall>c \<in> set text. isspace c)"
proof -
  let ?ls = "filter (\<lambda>line. line \<noteq> []) (map strip (split_lines text))"
  have "join [NL] ?ls = [] \<longleftrightarrow> ?ls = []"
    by (rule join_eq_Nil) simp
  also have "\<dots> \<longleftrightarrow> (\<forall>l \<in> set (split_lines text). strip l = [])"
    by (auto simp: filter_empty_conv)
  also have "\<dots> \<longleftrightarrow> (\<forall>l \<in> set (split_lines text). \<forall>c \<in> set l. isspace c)"
    by (simp add: strip_eq_Nil)
  also have "\<dots> \<longleftrightarrow> (\<forall>c \<in> set text. isspace c)"
    by (rule split_lines_chars)
  finally show ?thesis
    by (simp add: clean_lines_def Let_def)
qed

lemma universal_newlines_blank:
  "(\<forall>c \<in> set (universal_newlines s). isspace c) \<longleftrightarrow> (\<forall>c \<in> set s. isspace c)"
proof (induction s rule: universal_newlines.induct)
  case 1
  show ?case by simp
next
  case (2 c)
  show ?case by (simp add: isspace_def NL_def)
next
  case (3 c d cs)
  have cr: "isspace 13" by (simp add: isspace_def)
  show ?case
    using 3 cr by (cases "c = 13"; cases "d = NL") auto
qed

subsection \<open>Text extraction\<close>

lemma foldl_page_step:
  "foldl page_step (acc, h) pgs =
     (acc @ map (\<lambda>pg. strip (the pg)) (filter has_text_page pgs),
      h \<or> (\<exists>pg \<in> set pgs. has_text_page pg))"
proof (induction pgs arbitrary: acc h)
  case Nil
  show ?case by simp
next
  case (Cons pg pgs)
  show ?case
  proof (cases "has_text_page pg")
    case True
    then show ?thesis
      using Cons [of "acc @ [strip (the pg)]" True] by (simp add: page_step_def)
  next
    case False
    then show ?thesis
      using Cons [of acc h] by (simp add: page_step_def)
  qed
qed

lemma strip_scanned_warning: "strip scanned_warning = scanned_warning"
  by (rule strip_id) (simp add: scanned_warning_def str_def isspace_def)

lemma scanned_warning_nonempty: "scanned_warning \<noteq> []"
  by (simp add: scanned_warning_def str_def)

lemma join_stripped_lines:
  assumes "\<forall>l \<in> set texts. strip l = l \<and> l \<noteq> []"
  shows "join [NL] (map strip (filter (\<lambda>line. strip line \<noteq> []) texts)) = join [NL] texts"
proof -
  have "filter (\<lambda>line. strip line \<noteq> []) texts = texts"
    using assms by (simp add: filter_id_conv)
  moreover have "map strip texts = texts"
    using assms by (simp add: map_idI)
  ultimately show ?thesis by simp
qed

lemma extract_from_pdf_result:
  assumes "\<not> (is_encrypted p \<and> decrypt_raises p)"
  shows "extract_from_pdf (Some p) =
     Inr (if \<exists>pg \<in> set (pages p). has_text_page pg
          then join [NL] (map (\<lambda>pg. strip (the pg)) (filter has_text_page (pages p)))
          else scanned_warning)"
proof -
  let ?texts = "map (\<lambda>pg. strip (the pg)) (filter has_text_page (pages p))"
  have fin: "join [NL] (map strip (filter (\<lambda>line. strip line \<noteq> []) ?texts)) = join [NL] ?texts"
    by (rule join_stripped_lines)
      (auto simp: strip_strip has_text_page_def split: option.splits)
  show ?thesis
  proof (cases "\<exists>pg \<in> set (pages p). has_text_page pg")
    case True
    then show ?thesis
      using assms fin
      by (simp add: extract_from_pdf_def foldl_page_step)
  next
    case False
    then have "filter has_text_page (pages p) = []"
      by (simp add: filter_empty_conv)
    with False show ?thesis
      using assms
      by (simp add: extract_from_pdf_def foldl_page_step strip_scanned_warning
            scanned_warning_nonempty)
  qed
qed

lemma extract_from_pdf_nonempty:
  assumes "\<not> (is_encrypted p \<and> decrypt_raises p)"
  shows "\<exists>t. extract_from_pdf (Some p) = Inr t \<and> t \<noteq> [] \<and>
           (list_all (\<lambda>pg. \<not> has_text_page pg) (pages p) \<longrightarrow> t = scanned_warning)"
proof (cases "\<exists>pg \<in> set (pages p). has_text_page pg")
  case True
  let ?texts = "map (\<lambda>pg. strip (the pg)) (filter has_text_page (pages p))"
  have ne: "\<forall>l \<in> set ?texts. l \<noteq> []"
    by (auto simp: has_text_page_def split: option.splits)
  from True have "?texts \<noteq> []"
    by (simp add: filter_empty_conv)
  with ne have "join [NL] ?texts \<noteq> []"
    by (simp add: join_eq_Nil)
  moreover from True have "\<not> list_all (\<lambda>pg. \<not> has_text_page pg) (pages p)"
    by (simp add: list_all_iff)
  ultimately show ?thesis
    using True extract_from_pdf_result [OF assms] by simp
next
  case False
  then show ?thesis
    using extract_from_pdf_result [OF assms] scanned_warning_nonempty by simp
qed

lemma try_encodings_result:
  "try_encodings encodings bs =
     Inr (clean_lines (universal_newlines
            (case decode UTF_8 bs of Some text \<Rightarrow> text | None \<Rightarrow> map unat bs)))"
  by (simp add: encodings_def split: option.splits)

lemma clean_universal_blank:
  "clean_lines (universal_newlines text) = [] \<longleftrightarrow> (\<forall>c \<in> set text. isspace c)"
  by (simp add: clean_lines_eq_Nil universal_newlines_blank)

lemma extract_from_docx_blank:
  "\<exists>t. extract_from_docx (Some d) = Inr t \<and>
       (t = [] \<longleftrightarrow> (\<forall>x \<in> set (paragraphs d) \<union> set (concat (concat (tables d))). strip x = []))"
proof -
  define ps where "ps = filter (\<lambda>p. strip p \<noteq> []) (paragraphs d)"
  define cs where "cs = filter (\<lambda>c. strip c \<noteq> []) (concat (concat (tables d)))"
  define tc where "tc = map strip ps @ map strip cs"
  have ne: "\<forall>l \<in> set tc. l \<noteq> []"
    by (auto simp: tc_def ps_def cs_def)
  then have keep: "filter (\<lambda>line. line \<noteq> []) tc = tc"
    by (simp add: filter_id_conv)
  have res: "extract_from_docx (Some d) = Inr (join [NL] tc)"
    unfolding extract_from_docx_def Let_def option.case ps_def [symmetric] cs_def [symmetric]
      tc_def [symmetric] keep ..
  have "join [NL] tc = [] \<longleftrightarrow> tc = []"
    using ne by (rule join_eq_Nil)
  also have "\<dots> \<longleftrightarrow> ps = [] \<and> cs = []"
    by (simp add: tc_def)
  also have "\<dots> \<longleftrightarrow>
      (\<forall>x \<in> set (paragraphs d) \<union> set (concat (concat (tables d))). strip x = [])"
    unfolding ps_def cs_def filter_empty_conv by blast
  finally show ?thesis
    using res by simp
qed

text \<open>
  Claim C10. Latin-1, second in the list of encodings, decodes every sequence of
  bytes, so the loop always returns: for a file that can be read, extraction returns a
  text, and for no file at all does it raise the error "Unable to decode file with common
  encodings" that follows the loop.
\<close>

theorem extract_from_txt_always_decodes:
  "decode LATIN_1 bs = Some (map unat bs) \<and>
   (\<exists>text. extract_from_txt (Some bs) = Inr text) \<and>
   extract_from_txt opened \<noteq> Inl UndecodableEncodings"
proof -
  have ret: "\<And>b. \<exists>text. try_encodings encodings b = Inr text"
    by (simp add: encodings_def split: option.splits)
  have "extract_from_txt opened \<noteq> Inl UndecodableEncodings"
  proof (cases opened)
    case None
    then show ?thesis by (simp add: extract_from_txt_def)
  next
    case (Some b)
    with ret [of b] show ?thesis by (auto simp: extract_from_txt_def)
  qed
  moreover have "\<exists>text. extract_from_txt (Some bs) = Inr text"
    using ret [of bs] by (simp add: extract_from_txt_def)
  ultimately show ?thesis by simp
qed

text \<open>
  Claim C8, on the bytes 0x93 h i 0x94, the CP1252 encoding of the word hi in curly
  quotes. UTF-8 rejects them and CP1252 decodes them to U+201C h i U+201D, but the
  extraction returns the Latin-1 reading U+0093 h i U+0094: Latin-1 stands before CP1252
  in the list and never fails.
\<close>

theorem extract_from_txt_smart_quotes:
  "decode UTF_8 [0x93, 0x68, 0x69, 0x94] = None \<and>
   decode CP1252 [0x93, 0x68, 0x69, 0x94] = Some [8220, 104, 105, 8221] \<and>
   extract_from_txt (Some [0x93, 0x68, 0x69, 0x94]) = Inr [147, 104, 105, 148]"
  by (simp add: extract_from_txt_def encodings_def cp1252_char_def cp1252_high_def
        clean_lines_def strip_def lstrip_def rstrip_def isspace_def NL_def)

theorem extract_file_blank_txt_counterexample:
  "extract_file \<lparr> extension = str ''.txt'', content = Some [32, 32, 10], as_pdf = None,
                  as_docx = None, as_doc = NotInstalled \<rparr> = Inr [] \<and>
   [] \<noteq> scanned_warning"
  by (simp add: extract_file_def str_def extract_from_txt_def encodings_def
        clean_lines_def strip_def lstrip_def rstrip_def isspace_def NL_def scanned_warning_def)

lemma has_text_page_explicit:
  "has_text_page pg \<longleftrightarrow> (case pg of None \<Rightarrow> False | Some t \<Rightarrow> strip t \<noteq> [])"
  by (auto simp: has_text_page_def strip_def lstrip_def rstrip_def split: option.splits)

lemma extract_from_docx_result:
  "extract_from_docx (Some d) =
     Inr (join [NL] (map strip (filter (\<lambda>x. strip x \<noteq> [])
                                  (paragraphs d @ concat (concat (tables d))))))"
proof -
  define tc where "tc = map strip (filter (\<lambda>x. strip x \<noteq> [])
                                     (paragraphs d @ concat (concat (tables d))))"
  have "\<forall>l \<in> set tc. l \<noteq> []"
    by (auto simp: tc_def)
  then have keep: "filter (\<lambda>line. line \<noteq> []) tc = tc"
    by (simp add: filter_id_conv)
  have "extract_from_docx (Some d) = Inr (join [NL] (filter (\<lambda>line. line \<noteq> []) tc))"
    by (simp add: extract_from_docx_def tc_def)
  then have "extract_from_docx (Some d) = Inr (join [NL] tc)"
    by (simp only: keep)
  then show ?thesis
    by (simp only: tc_def)
qed

text \<open>
  Claim C7, amended. Only the PDF path has a sentinel. For a PDF that can be read,
  extraction never returns the empty string: when no page yields text other than white
  space it returns the one sentinel line, and otherwise the texts of the pages that
  yield such text, each without the white space around it, joined by newlines. For TXT,
  DOCX and DOC there is no sentinel: extraction returns the lines (paragraphs and table
  cells for DOCX) that are not blank, each without the white space around it, joined by
  newlines, and that is the empty string exactly when the document holds nothing but
  white space.
\<close>

theorem extract_file_sentinel_only_for_pdf:
  "(extension f = str ''.pdf'' \<and> as_pdf f = Some p \<and> \<not> (is_encrypted p \<and> decrypt_raises p) \<longrightarrow>
      (\<exists>t. extract_file f = Inr t \<and> t \<noteq> [] \<and>
           t = (if list_all (\<lambda>pg. case pg of None \<Rightarrow> True | Some x \<Rightarrow> strip x = []) (pages p)
                then str ''[Warning: This appears to be a scanned or image-only PDF. '' @
                     str ''No text could be extracted. Please provide a text-based PDF or use OCR.]''
                else join [NL] (map (\<lambda>pg. strip (the pg))
                       (filter (\<lambda>pg. case pg of None \<Rightarrow> False | Some x \<Rightarrow> strip x \<noteq> [])
                          (pages p)))))) \<and>
   (extension f = str ''.txt'' \<and> content f = Some bs \<longrightarrow>
      (\<exists>t. extract_file f = Inr t \<and>
           t = join [NL] (filter (\<lambda>l. l \<noteq> []) (map strip (split_lines (universal_newlines
                 (case decode UTF_8 bs of Some text \<Rightarrow> text | None \<Rightarrow> map unat bs))))) \<and>
           (t = [] \<longleftrightarrow>
            (\<forall>c \<in> set (case decode UTF_8 bs of Some text \<Rightarrow> text | None \<Rightarrow> map unat bs).
                isspace c)))) \<and>
   (extension f = str ''.docx'' \<and> as_docx f = Some d \<longrightarrow>
      (\<exists>t. extract_file f = Inr t \<and>
           t = join [NL] (map strip (filter (\<lambda>x. strip x \<noteq> [])
                 (paragraphs d @ concat (concat (tables d))))) \<and>
           (t = [] \<longleftrightarrow>
            (\<forall>x \<in> set (paragraphs d) \<union> set (concat (concat (tables d))). strip x = [])))) \<and>
   (extension f = str ''.doc'' \<and> as_doc f = Output out \<and> decode UTF_8 out = Some text \<longrightarrow>
      (\<exists>t. extract_file f = Inr t \<and>
           t = join [NL] (filter (\<lambda>l. l \<noteq> []) (map strip (split_lines text))) \<and>
           (t = [] \<longleftrightarrow> (\<forall>c \<in> set text. isspace c))))"
proof (intro conjI impI)
  assume a: "extension f = str ''.pdf'' \<and> as_pdf f = Some p \<and> \<not> (is_encrypted p \<and> decrypt_raises p)"
  let ?has = "\<lambda>pg. case pg of None \<Rightarrow> False | Some x \<Rightarrow> strip x \<noteq> ([] :: pystr)"
  let ?blank = "\<lambda>pg. case pg of None \<Rightarrow> True | Some x \<Rightarrow> strip x = ([] :: pystr)"
  have h: "has_text_page = ?has"
    by (rule ext) (rule has_text_page_explicit)
  have b: "(\<lambda>pg. \<not> has_text_page pg) = ?blank"
    by (rule ext) (simp add: has_text_page_explicit split: option.splits)
  from a have e: "extract_file f = extract_from_pdf (Some p)"
    by (simp add: extract_file_def)
  from a have n: "\<not> (is_encrypted p \<and> decrypt_raises p)"
    by simp
  have all: "(\<exists>pg \<in> set (pages p). has_text_page pg) \<longleftrightarrow>
             \<not> list_all (\<lambda>pg. \<not> has_text_page pg) (pages p)"
    by (simp add: list_all_iff)
  obtain t where t: "extract_from_pdf (Some p) = Inr t" "t \<noteq> []"
    using extract_from_pdf_nonempty [OF n] by blast
  have "t = (if list_all (\<lambda>pg. \<not> has_text_page pg) (pages p) then scanned_warning
             else join [NL] (map (\<lambda>pg. strip (the pg)) (filter has_text_page (pages p))))"
    using t(1) extract_from_pdf_result [OF n] all by (simp split: if_splits)
  then have "t = (if list_all ?blank (pages p) then scanned_warning
             else join [NL] (map (\<lambda>pg. strip (the pg)) (filter has_text_page (pages p))))"
    unfolding b .
  then have "t = (if list_all ?blank (pages p) then scanned_warning
             else join [NL] (map (\<lambda>pg. strip (the pg)) (filter ?has (pages p))))"
    unfolding h .
  with e t
  show "\<exists>t. extract_file f = Inr t \<and> t \<noteq> [] \<and>
           t = (if list_all ?blank (pages p)
                then str ''[Warning: This appears to be a scanned or image-only PDF. '' @
                     str ''No text could be extracted. Please provide a text-based PDF or use OCR.]''
                else join [NL] (map (\<lambda>pg. strip (the pg)) (filter ?has (pages p))))"
    unfolding scanned_warning_def by simp
next
  assume a: "extension f = str ''.txt'' \<and> content f = Some bs"
  let ?text = "case decode UTF_8 bs of Some text \<Rightarrow> text | None \<Rightarrow> map unat bs"
  from a have "extract_file f = try_encodings encodings bs"
    by (simp add: extract_file_def extract_from_txt_def str_def)
  then have r: "extract_file f = Inr (clean_lines (universal_newlines ?text))"
    by (simp only: try_encodings_result)
  have c: "clean_lines (universal_newlines ?text) =
      join [NL] (filter (\<lambda>l. l \<noteq> []) (map strip (split_lines (universal_newlines ?text))))"
    by (simp add: clean_lines_def)
  from r c clean_universal_blank [of ?text]
  show "\<exists>t. extract_file f = Inr t \<and>
           t = join [NL] (filter (\<lambda>l. l \<noteq> []) (map strip (split_lines (universal_newlines ?text)))) \<and>
           (t = [] \<longleftrightarrow> (\<forall>c \<in> set ?text. isspace c))"
    by simp
next
  assume a: "extension f = str ''.docx'' \<and> as_docx f = Some d"
  then have e: "extract_file f = extract_from_docx (Some d)"
    by (simp add: extract_file_def str_def)
  from extract_from_docx_blank [of d] extract_from_docx_result [of d]
  show "\<exists>t. extract_file f = Inr t \<and>
           t = join [NL] (map strip (filter (\<lambda>x. strip x \<noteq> [])
                 (paragraphs d @ concat (concat (tables d))))) \<and>
           (t = [] \<longleftrightarrow>
            (\<forall>x \<in> set (paragraphs d) \<union> set (concat (concat (tables d))). strip x = []))"
    unfolding e by simp
next
  assume a: "extension f = str ''.doc'' \<and> as_doc f = Output out \<and> decode UTF_8 out = Some text"
  then have "extract_file f = Inr (clean_lines text)"
    by (simp add: extract_file_def extract_from_doc_def str_def)
  moreover have "clean_lines text =
      join [NL] (filter (\<lambda>l. l \<noteq> []) (map strip (split_lines text)))"
    by (simp add: clean_lines_def)
  ultimately
  show "\<exists>t. extract_file f = Inr t \<and>
           t = join [NL] (filter (\<lambda>l. l \<noteq> []) (map strip (split_lines text))) \<and>
           (t = [] \<longleftrightarrow> (\<forall>c \<in> set text. isspace c))"
    using clean_lines_eq_Nil [of "text"] by simp
qed

theorem extract_file_sentinel_only_for_pdf_witness:
  "extract_file \<lparr> extension = str ''.pdf'', content = None,
                   as_pdf = Some \<lparr> is_encrypted = False, decrypt_raises = False,
                                   pages = [None, Some [], Some [32, 10]] \<rparr>,
                   as_docx = None, as_doc = NotInstalled \<rparr> =
     Inr (str ''[Warning: This appears to be a scanned or image-only PDF. '' @
          str ''No text could be extracted. Please provide a text-based PDF or use OCR.]'') \<and>
   extract_file \<lparr> extension = str ''.pdf'', content = None,
                   as_pdf = Some \<lparr> is_encrypted = True, decrypt_raises = False,
                                   pages = [Some (str '' a ''), None, Some [32], Some (str ''b c\<newline>'')] \<rparr>,
                   as_docx = None, as_doc = NotInstalled \<rparr> = Inr (str ''a\<newline>b c'') \<and>
   extract_file \<lparr> extension = str ''.txt'', content = Some [10, 32, 13, 10],
                   as_pdf = None, as_docx = None, as_doc = NotInstalled \<rparr> = Inr [] \<and>
   extract_file \<lparr> extension = str ''.docx'', content = None, as_pdf = None,
                   as_docx = Some \<lparr> paragraphs = [[], [32]], tables = [[[[10]]]] \<rparr>,
                   as_doc = NotInstalled \<rparr> = Inr [] \<and>
   extract_file \<lparr> extension = str ''.doc'', content = None, as_pdf = None,
                   as_docx = None, as_doc = Output [32, 104, 105, 10, 10, 33] \<rparr> =
     Inr (str ''hi\<newline>!'')"
proof -
  let ?p = "\<lparr> is_encrypted = False, decrypt_raises = False,
              pages = [None, Some [], Some [32, 10 :: nat]] \<rparr>"
  let ?q = "\<lparr> is_encrypted = True, decrypt_raises = False,
              pages = [Some (str '' a ''), None, Some [32], Some (str ''b c\<newline>'')] \<rparr>"
  let ?f1 = "\<lparr> extension = str ''.pdf'', content = None, as_pdf = Some ?p,
               as_docx = None, as_doc = NotInstalled \<rparr>"
  let ?f1' = "\<lparr> extension = str ''.pdf'', content = None, as_pdf = Some ?q,
               as_docx = None, as_doc = NotInstalled \<rparr>"
  let ?f2 = "\<lparr> extension = str ''.txt'', content = Some [10, 32, 13, 10],
               as_pdf = None, as_docx = None, as_doc = NotInstalled \<rparr>"
  let ?d = "\<lparr> paragraphs = [[], [32 :: nat]], tables = [[[[10 :: nat]]]] \<rparr>"
  let ?f3 = "\<lparr> extension = str ''.docx'', content = None, as_pdf = None,
               as_docx = Some ?d, as_doc = NotInstalled \<rparr>"
  let ?f4 = "\<lparr> extension = str ''.doc'', content = None, as_pdf = None,
               as_docx = None, as_doc = Output [32, 104, 105, 10, 10, 33] \<rparr>"
  have 1: "extract_file ?f1 =
     Inr (str ''[Warning: This appears to be a scanned or image-only PDF. '' @
          str ''No text could be extracted. Please provide a text-based PDF or use OCR.]'')"
    using extract_file_sentinel_only_for_pdf [of ?f1 ?p]
    by (simp add: strip_def lstrip_def rstrip_def isspace_def)
  have 5: "extract_file ?f1' = Inr (str ''a\<newline>b c'')"
    using extract_file_sentinel_only_for_pdf [of ?f1' ?q]
    by (simp add: strip_def lstrip_def rstrip_def isspace_def str_def NL_def)
  have 2: "extract_file ?f2 = Inr []"
    using extract_file_sentinel_only_for_pdf [of ?f2 _ "[10, 32, 13, 10]"]
    by (simp add: isspace_def)
  have 3: "extract_file ?f3 = Inr []"
    using extract_file_sentinel_only_for_pdf [of ?f3 _ _ ?d]
    by (simp add: strip_def lstrip_def rstrip_def isspace_def)
  have 4: "extract_file ?f4 = Inr (str ''hi\<newline>!'')"
    using extract_file_sentinel_only_for_pdf [of ?f4 _ _ _ "[32, 104, 105, 10, 10, 33]" "[32, 104, 105, 10, 10, 33]"]
    by (simp add: strip_def lstrip_def rstrip_def isspace_def str_def NL_def)
  from 1 5 2 3 4 show ?thesis by (intro conjI)
qed

subsection \<open>The response recovery parser\<close>

lemma braces_not_space: "\<not> isspace LBRACE" "\<not> isspace RBRACE"
  by (simp_all add: isspace_def LBRACE_def RBRACE_def)

lemma framed_lstrip:
  assumes "braced core" "framed core t"
  shows "framed core (lstrip t)"
proof -
  from assms(2) obtain pre post where
    t: "t = pre @ core @ post" "LBRACE \<notin> set pre" "RBRACE \<notin> set post"
    by (auto simp: framed_def)
  from assms(1) obtain core' where c: "core = LBRACE # core'"
    by (cases core) (auto simp: braced_def)
  have "lstrip t = dropWhile isspace pre @ core @ post"
    using braces_not_space(1) by (simp add: t(1) c lstrip_def dropWhile_append3)
  moreover have "LBRACE \<notin> set (dropWhile isspace pre)"
    using t(2) set_dropWhileD by fastforce
  ultimately show ?thesis
    using t(3) unfolding framed_def by blast
qed

lemma framed_rstrip:
  assumes "braced core" "framed core t"
  shows "framed core (rstrip t)"
proof -
  from assms(2) obtain pre post where
    t: "t = pre @ core @ post" "LBRACE \<notin> set pre" "RBRACE \<notin> set post"
    by (auto simp: framed_def)
  from assms(1) obtain core' where c: "core = core' @ [RBRACE]"
    by (cases core rule: rev_cases) (auto simp: braced_def)
  have "dropWhile isspace (rev t) = dropWhile isspace (rev post) @ RBRACE # rev core' @ rev pre"
    using braces_not_space(2) by (simp add: t(1) c dropWhile_append3)
  then have "rstrip t = pre @ core @ rev (dropWhile isspace (rev post))"
    by (simp add: rstrip_def c)
  moreover have "RBRACE \<notin> set (rev (dropWhile isspace (rev post)))"
    using t(3) set_dropWhileD [of RBRACE isspace "rev post"] by auto
  ultimately show ?thesis
    using t(2) unfolding framed_def by blast
qed

lemma framed_strip: "braced core \<Longrightarrow> framed core t \<Longrightarrow> framed core (strip t)"
  by (simp add: strip_def framed_lstrip framed_rstrip)

lemma framed_drop_prefix:
  assumes "braced core" "framed core t" "startswith t p" "LBRACE \<notin> set p"
  shows "framed core (drop (length p) t)"
proof -
  from assms(2) obtain pre post where
    t: "t = pre @ core @ post" "LBRACE \<notin> set pre" "RBRACE \<notin> set post"
    by (auto simp: framed_def)
  from assms(1) obtain core' where c: "core = LBRACE # core'"
    by (cases core) (auto simp: braced_def)
  have le: "length p \<le> length pre"
  proof (rule ccontr)
    assume "\<not> length p \<le> length pre"
    then have lt: "length pre < length p" by simp
    from assms(3) have p: "p = take (length p) t"
      by (simp add: startswith_def)
    have "take (length p) t ! length pre = t ! length pre"
      using lt by simp
    then have "p ! length pre = t ! length pre"
      using p by simp
    also have "\<dots> = LBRACE"
      by (simp add: t(1) c)
    finally have "p ! length pre = LBRACE" .
    moreover have "p ! length pre \<in> set p"
      using lt by (rule nth_mem)
    ultimately have "LBRACE \<in> set p" by simp
    with assms(4) show False by simp
  qed
  then have "drop (length p) t = drop (length p) pre @ core @ post"
    by (simp add: t(1))
  moreover have "LBRACE \<notin> set (drop (length p) pre)"
    using t(2) by (meson in_set_dropD)
  ultimately show ?thesis
    using t(3) unfolding framed_def by blast
qed

lemma framed_take_suffix:
  assumes "braced core" "framed core t" "endswith t p" "RBRACE \<notin> set p"
  shows "framed core (take (length t - length p) t)"
proof -
  from assms(2) obtain pre post where
    t: "t = pre @ core @ post" "LBRACE \<notin> set pre" "RBRACE \<notin> set post"
    by (auto simp: framed_def)
  from assms(1) obtain core' where c: "core = core' @ [RBRACE]"
    by (cases core rule: rev_cases) (auto simp: braced_def)
  from assms(3) have len: "length p \<le> length t" and p: "p = drop (length t - length p) t"
    by (simp_all add: endswith_def)
  have le: "length p \<le> length post"
  proof (rule ccontr)
    assume "\<not> length p \<le> length post"
    then have lt: "length post < length p" by simp
    let ?i = "length pre + length core'"
    have i: "length t - length p \<le> ?i" "?i < length t"
      using lt len by (simp_all add: t(1) c)
    have "t ! ?i = RBRACE"
      by (simp add: t(1) c nth_append)
    moreover have "t ! ?i \<in> set (drop (length t - length p) t)"
    proof -
      let ?n = "length t - length p"
      have "drop ?n t ! (?i - ?n) = t ! (?n + (?i - ?n))"
        by (rule nth_drop) simp
      then have "drop ?n t ! (?i - ?n) = t ! ?i"
        using i(1) by simp
      moreover have "?i - ?n < length (drop ?n t)"
        using i by simp
      ultimately show ?thesis
        by (metis nth_mem)
    qed
    ultimately have "RBRACE \<in> set p"
      using p by simp
    with assms(4) show False by simp
  qed
  have "length t - length p = length pre + length core + (length post - length p)"
    using le by (simp add: t(1))
  then have "take (length t - length p) t = pre @ core @ take (length post - length p) post"
    by (simp add: t(1))
  moreover have "RBRACE \<notin> set (take (length post - length p) post)"
    using t(3) by (meson in_set_takeD)
  ultimately show ?thesis
    using t(2) unfolding framed_def by blast
qed

lemma framed_remove_markers:
  assumes "braced core" "framed core t"
  shows "framed core (remove_markers t)"
proof -
  define t1 where "t1 = (if startswith t (str ''```json'') then drop 7 t
                else if startswith t (str ''```'') then drop 3 t
                else t)"
  have len7: "length (str ''```json'') = 7" and len3: "length (str ''```'') = 3"
    by (simp_all add: str_def)
  have no7: "LBRACE \<notin> set (str ''```json'')" and no3: "LBRACE \<notin> set (str ''```'')"
    and no3': "RBRACE \<notin> set (str ''```'')"
    by (simp_all add: str_def LBRACE_def RBRACE_def)
  have 1: "framed core t1"
  proof (cases "startswith t (str ''```json'')")
    case True
    from framed_drop_prefix [OF assms True no7] have "framed core (drop 7 t)"
      unfolding len7 .
    with True show ?thesis by (simp only: t1_def if_True)
  next
    case False
    show ?thesis
    proof (cases "startswith t (str ''```'')")
      case True
      from framed_drop_prefix [OF assms True no3] have "framed core (drop 3 t)"
        unfolding len3 .
      with True False show ?thesis by (simp only: t1_def if_True if_False)
    next
      case f: False
      with False assms(2) show ?thesis by (simp only: t1_def if_False)
    qed
  qed
  have 2: "framed core (if endswith t1 (str ''```'') then take (length t1 - 3) t1 else t1)"
  proof (cases "endswith t1 (str ''```'')")
    case True
    from framed_take_suffix [OF assms(1) 1 True no3']
    have "framed core (take (length t1 - 3) t1)"
      unfolding len3 .
    with True show ?thesis by (simp only: if_True)
  next
    case False
    with 1 show ?thesis by (simp only: if_False)
  qed
  show ?thesis
    using 2 unfolding remove_markers_def Let_def t1_def .
qed

lemma framed_json_span:
  assumes "braced core" "framed core t"
  shows "json_span t = core"
proof -
  from assms(2) obtain pre post where
    t: "t = pre @ core @ post" "LBRACE \<notin> set pre" "RBRACE \<notin> set post"
    by (auto simp: framed_def)
  from assms(1) obtain c1 where c1: "core = LBRACE # c1"
    by (cases core) (auto simp: braced_def)
  from assms(1) obtain c2 where c2: "core = c2 @ [RBRACE]"
    by (cases core rule: rev_cases) (auto simp: braced_def)
  have "takeWhile (\<lambda>x. x \<noteq> LBRACE) (pre @ (LBRACE # c1 @ post)) =
      pre @ takeWhile (\<lambda>x. x \<noteq> LBRACE) (LBRACE # c1 @ post)"
    by (rule takeWhile_append2) (use t(2) in auto)
  then have "takeWhile (\<lambda>x. x \<noteq> LBRACE) t = pre"
    by (simp add: t(1) c1)
  moreover have "LBRACE \<in> set t"
    by (simp add: t(1) c1)
  ultimately have f: "str_find t LBRACE = int (length pre)"
    by (simp add: str_find_def)
  have "rev t = rev post @ RBRACE # rev c2 @ rev pre"
    by (simp add: t(1) c2)
  moreover have "takeWhile (\<lambda>x. x \<noteq> RBRACE) (rev post @ (RBRACE # rev c2 @ rev pre)) =
      rev post @ takeWhile (\<lambda>x. x \<noteq> RBRACE) (RBRACE # rev c2 @ rev pre)"
    by (rule takeWhile_append2) (use t(3) in auto)
  ultimately have "takeWhile (\<lambda>x. x \<noteq> RBRACE) (rev t) = rev post"
    by simp
  moreover have "RBRACE \<in> set t"
    by (simp add: t(1) c2)
  ultimately have "str_rfind t RBRACE = int (length t) - 1 - int (length post)"
    by (simp add: str_rfind_def)
  then have r: "str_rfind t RBRACE + 1 = int (length pre) + int (length core)"
    by (simp add: t(1))
  have "slice t (str_find t LBRACE) (str_rfind t RBRACE + 1) = core"
    unfolding f r by (simp add: slice_def t(1))
  moreover have "str_find t LBRACE \<noteq> - 1" "str_rfind t RBRACE \<noteq> - 1"
    using f r c1 by simp_all
  ultimately show ?thesis
    by (simp add: json_span_def Let_def)
qed

lemma cleaned_text_framed:
  assumes "braced core" "framed core raw"
  shows "cleaned_text raw = core"
  unfolding cleaned_text_def trimmed_text_def
  by (intro framed_json_span framed_strip framed_remove_markers assms)

lemma strip_decomposition:
  "\<exists>a b. s = a @ strip s @ b \<and> (\<forall>c \<in> set a. isspace c) \<and> (\<forall>c \<in> set b. isspace c)"
proof -
  let ?a = "takeWhile isspace s"
  let ?b = "rev (takeWhile isspace (rev (lstrip s)))"
  have 1: "s = ?a @ lstrip s"
    by (simp add: lstrip_def)
  have "lstrip s = rev (rev (lstrip s))"
    by simp
  also have "\<dots> =
      rev (takeWhile isspace (rev (lstrip s)) @ dropWhile isspace (rev (lstrip s)))"
    by (simp only: takeWhile_dropWhile_id)
  also have "\<dots> = rev (dropWhile isspace (rev (lstrip s))) @ ?b"
    by (rule rev_append)
  finally have 2: "lstrip s = strip s @ ?b"
    by (simp only: strip_def rstrip_def)
  have "s = ?a @ strip s @ ?b"
    using 1 2 by simp
  moreover have "\<forall>c \<in> set ?a. isspace c"
    by (meson set_takeWhileD)
  moreover have "\<forall>c \<in> set ?b. isspace c"
    using set_takeWhileD [of _ isspace "rev (lstrip s)"] by auto
  ultimately show ?thesis by blast
qed

lemma framed_body:
  assumes "braced (strip body)" "LBRACE \<notin> set before" "RBRACE \<notin> set after"
  shows "framed (strip body) (before @ body @ after)"
proof -
  from strip_decomposition [of body] obtain a b where
    ab: "body = a @ strip body @ b" "\<forall>c \<in> set a. isspace c" "\<forall>c \<in> set b. isspace c"
    by blast
  have "LBRACE \<notin> set a" "RBRACE \<notin> set b"
    using ab(2,3) braces_not_space by blast+
  then have "LBRACE \<notin> set (before @ a)" "RBRACE \<notin> set (b @ after)"
    using assms(2,3) by simp_all
  moreover have "before @ body @ after = (before @ a) @ strip body @ (b @ after)"
    using ab(1) by (metis append.assoc)
  ultimately show ?thesis
    unfolding framed_def by blast
qed

lemma fill_fields_dict:
  "\<exists>d'. fill_fields fs (JObj d) = Inr (JObj d') \<and>
        (\<forall>k. map_of d' k =
               (if k \<in> set fs \<and> map_of d k = None then Some (default_value k) else map_of d k))"
proof (induction fs arbitrary: d)
  case Nil
  show ?case by simp
next
  case (Cons f fs)
  show ?case
  proof (cases "f \<in> fst ` set d")
    case True
    then have present: "map_of d f \<noteq> None"
      by (simp add: map_of_eq_None_iff)
    from Cons [of d] obtain d' where
      d': "fill_fields fs (JObj d) = Inr (JObj d')"
        "\<forall>k. map_of d' k =
               (if k \<in> set fs \<and> map_of d k = None then Some (default_value k) else map_of d k)"
      by blast
    have "fill_fields (f # fs) (JObj d) = Inr (JObj d')"
      using True d'(1) by simp
    moreover have "\<forall>k. map_of d' k =
        (if k \<in> set (f # fs) \<and> map_of d k = None then Some (default_value k) else map_of d k)"
      using d'(2) present by auto
    ultimately show ?thesis by blast
  next
    case False
    then have absent: "map_of d f = None"
      by (simp add: map_of_eq_None_iff)
    let ?d1 = "AList.update f (default_value f) d"
    from Cons [of ?d1] obtain d' where
      d': "fill_fields fs (JObj ?d1) = Inr (JObj d')"
        "\<forall>k. map_of d' k =
               (if k \<in> set fs \<and> map_of ?d1 k = None then Some (default_value k) else map_of ?d1 k)"
      by blast
    have "fill_fields (f # fs) (JObj d) = Inr (JObj d')"
      using False d'(1) by simp
    moreover have "\<forall>k. map_of d' k =
        (if k \<in> set (f # fs) \<and> map_of d k = None then Some (default_value k) else map_of d k)"
      using d'(2) absent by (auto simp: update_conv')
    ultimately show ?thesis by blast
  qed
qed

text \<open>
  Claim C1. Whenever the cleaned text of a response parses as a JSON object, the parser
  returns an object (and prints nothing): every key the model sent keeps its value, and
  each of the four required keys that is absent is filled in, \<open>skills\<close> with the empty
  list, \<open>experience\<close> and \<open>tech_stack\<close> with the empty dictionary, \<open>summary\<close> with the
  empty string. So all four keys are there and a missing key is never an error.
\<close>

theorem parse_gemini_response_backfills:
  assumes "loads (cleaned_text raw) = Inr (JObj d)"
  shows "\<exists>d'. parse_gemini_response loads raw = ([], Inr (JObj d')) \<and>
           (\<forall>k v. map_of d k = Some v \<longrightarrow> map_of d' k = Some v) \<and>
           (map_of d (str ''skills'') = None \<longrightarrow> map_of d' (str ''skills'') = Some (JArr [])) \<and>
           (map_of d (str ''experience'') = None \<longrightarrow>
              map_of d' (str ''experience'') = Some (JObj [])) \<and>
           (map_of d (str ''tech_stack'') = None \<longrightarrow>
              map_of d' (str ''tech_stack'') = Some (JObj [])) \<and>
           (map_of d (str ''summary'') = None \<longrightarrow> map_of d' (str ''summary'') = Some (JStr [])) \<and>
           (\<forall>k \<in> set required_fields. map_of d' k \<noteq> None) \<and>
           (\<forall>k. k \<notin> set required_fields \<longrightarrow> map_of d' k = map_of d k)"
proof -
  from fill_fields_dict [of required_fields d] obtain d' where
    d': "fill_fields required_fields (JObj d) = Inr (JObj d')"
    and m: "\<And>k. map_of d' k =
        (if k \<in> set required_fields \<and> map_of d k = None then Some (default_value k)
         else map_of d k)"
    by blast
  have 0: "parse_gemini_response loads raw = ([], Inr (JObj d'))"
    using assms d' by (simp add: parse_gemini_response_def)
  have 1: "\<forall>k v. map_of d k = Some v \<longrightarrow> map_of d' k = Some v"
    by (simp add: m)
  have 2: "map_of d (str ''skills'') = None \<longrightarrow> map_of d' (str ''skills'') = Some (JArr [])"
    by (simp add: m required_fields_def default_value_def str_def)
  have 3: "map_of d (str ''experience'') = None \<longrightarrow>
      map_of d' (str ''experience'') = Some (JObj [])"
    by (simp add: m required_fields_def default_value_def str_def)
  have 4: "map_of d (str ''tech_stack'') = None \<longrightarrow>
      map_of d' (str ''tech_stack'') = Some (JObj [])"
    by (simp add: m required_fields_def default_value_def str_def)
  have 5: "map_of d (str ''summary'') = None \<longrightarrow> map_of d' (str ''summary'') = Some (JStr [])"
    by (simp add: m required_fields_def default_value_def str_def)
  have 6: "\<forall>k \<in> set required_fields. map_of d' k \<noteq> None"
    by (simp add: m)
  have 7: "\<forall>k. k \<notin> set required_fields \<longrightarrow> map_of d' k = map_of d k"
    by (simp add: m)
  show ?thesis
    by (rule exI [of _ d']) (intro conjI 0 1 2 3 4 5 6 7)
qed




text \<open>
  Claim C2, amended. For every body that, apart from white space around it, starts with
  an opening and ends with a closing brace (every JSON object does), and for every
  leading prose without an opening brace, the response that wraps the body in the fences
  after the prose hands the same text to \<open>json.loads\<close> as the bare body, namely the body
  without the white space around it; so the parser returns the same structure for both.
\<close>

theorem parse_gemini_response_fenced:
  assumes "braced (strip body)" and "LBRACE \<notin> set prose"
  shows "cleaned_text (wrap_in_fences prose body) = strip body \<and>
         cleaned_text body = strip body \<and>
         snd (parse_gemini_response loads (wrap_in_fences prose body)) =
           snd (parse_gemini_response loads body)"
proof -
  have "LBRACE \<notin> set (prose @ str ''```json'' @ [NL])"
    using assms(2) by (simp add: str_def LBRACE_def NL_def)
  moreover have "RBRACE \<notin> set ([NL] @ str ''```'')"
    by (simp add: str_def RBRACE_def NL_def)
  ultimately have "framed (strip body) ((prose @ str ''```json'' @ [NL]) @ body @ ([NL] @ str ''```''))"
    using assms(1) by (intro framed_body)
  then have "framed (strip body) (wrap_in_fences prose body)"
    by (simp add: wrap_in_fences_def)
  with assms(1) have 1: "cleaned_text (wrap_in_fences prose body) = strip body"
    by (rule cleaned_text_framed)
  have "framed (strip body) ([] @ body @ [])"
    using assms(1) by (intro framed_body) simp_all
  then have "framed (strip body) body" by simp
  with assms(1) have 2: "cleaned_text body = strip body"
    by (rule cleaned_text_framed)
  have 3: "snd (parse_gemini_response loads (wrap_in_fences prose body)) =
           snd (parse_gemini_response loads body)"
    by (simp add: parse_gemini_response_def 1 2 split: sum.splits loads_error.splits)
  from 1 2 3 show ?thesis by blast
qed

lemmas text_defs =
  cleaned_text_def trimmed_text_def json_span_def remove_markers_def strip_def lstrip_def
  rstrip_def isspace_def startswith_def endswith_def str_find_def str_rfind_def slice_def
  str_def LBRACE_def RBRACE_def NL_def Let_def

lemmas loads_defs =
  loads_plain_def skip_ws_def json_ws_def is_digit_def scan_int_def digits_value_def

theorem parse_gemini_response_backfills_witness:
  \<open>loads_plain (cleaned_text (str ''{"skills": [], "experience": {}}'')) =
     Inr (JObj [(str ''skills'', JArr []), (str ''experience'', JObj [])]) \<and>
   (\<exists>d'. parse_gemini_response loads_plain (str ''{"skills": [], "experience": {}}'') =
            ([], Inr (JObj d')) \<and>
         map_of d' (str ''skills'') = Some (JArr []) \<and>
         map_of d' (str ''experience'') = Some (JObj []) \<and>
         map_of d' (str ''tech_stack'') = Some (JObj []) \<and>
         map_of d' (str ''summary'') = Some (JStr []))\<close>
proof -
  let ?raw = \<open>str ''{"skills": [], "experience": {}}''\<close>
  let ?d = "[(str ''skills'', JArr []), (str ''experience'', JObj [])]"
  have h: "loads_plain (cleaned_text ?raw) = Inr (JObj ?d)"
    by (simp add: text_defs loads_defs)
  from parse_gemini_response_backfills [of loads_plain ?raw ?d, OF h] obtain d' where
    d': "parse_gemini_response loads_plain ?raw = ([], Inr (JObj d'))"
      "\<forall>k v. map_of ?d k = Some v \<longrightarrow> map_of d' k = Some v"
      "map_of ?d (str ''tech_stack'') = None \<longrightarrow> map_of d' (str ''tech_stack'') = Some (JObj [])"
      "map_of ?d (str ''summary'') = None \<longrightarrow> map_of d' (str ''summary'') = Some (JStr [])"
    by (elim exE conjE) (rule that, assumption+)
  have 1: "map_of d' (str ''skills'') = Some (JArr [])"
    using d'(2) [rule_format, of "str ''skills''" "JArr []"] by (simp add: str_def)
  have 2: "map_of d' (str ''experience'') = Some (JObj [])"
    using d'(2) [rule_format, of "str ''experience''" "JObj []"] by (simp add: str_def)
  have 3: "map_of d' (str ''tech_stack'') = Some (JObj [])"
    using d'(3) by (simp add: str_def)
  have 4: "map_of d' (str ''summary'') = Some (JStr [])"
    using d'(4) by (simp add: str_def)
  show ?thesis
    using h d'(1) 1 2 3 4 by blast
qed

theorem parse_gemini_response_fenced_counterexample:
  "wrap_in_fences (str ''Use {x}: '') (str ''{}'') = str ''Use {x}: ```json\<newline>{}\<newline>```'' \<and>
   cleaned_text (str ''Use {x}: ```json\<newline>{}\<newline>```'') = str ''{x}: ```json\<newline>{}'' \<and>
   snd (parse_gemini_response loads_plain (str ''Use {x}: ```json\<newline>{}\<newline>```'')) =
     Inl FailedToParseJSON \<and>
   snd (parse_gemini_response loads_plain (str ''{}'')) =
     Inr (JObj [(str ''skills'', JArr []), (str ''experience'', JObj []),
                (str ''tech_stack'', JObj []), (str ''summary'', JStr [])])"
  by (simp add: wrap_in_fences_def parse_gemini_response_def required_fields_def
        default_value_def text_defs loads_defs)

theorem parse_gemini_response_fenced_witness:
  \<open>braced (strip (str ''{"skills":[]}'')) \<and>
   LBRACE \<notin> set (str ''Sure! '') \<and>
   wrap_in_fences (str ''Sure! '') (str ''{"skills":[]}'') =
     str ''Sure! ```json\<newline>{"skills":[]}\<newline>```'' \<and>
   cleaned_text (str ''Sure! ```json\<newline>{"skills":[]}\<newline>```'') = str ''{"skills":[]}'' \<and>
   snd (parse_gemini_response loads_plain (str ''Sure! ```json\<newline>{"skills":[]}\<newline>```'')) =
     snd (parse_gemini_response loads_plain (str ''{"skills":[]}''))\<close>
proof -
  let ?body = \<open>str ''{"skills":[]}''\<close>
  let ?prose = "str ''Sure! ''"
  have s: "strip ?body = ?body"
    by (simp add: text_defs)
  have b: "braced (strip ?body)"
    unfolding s by (simp add: braced_def str_def LBRACE_def RBRACE_def)
  have p: "LBRACE \<notin> set ?prose"
    by (simp add: str_def LBRACE_def)
  have w: \<open>wrap_in_fences ?prose ?body = str ''Sure! ```json\<newline>{"skills":[]}\<newline>```''\<close>
    by (simp add: wrap_in_fences_def str_def NL_def)
  from parse_gemini_response_fenced [of ?body ?prose loads_plain, OF b p]
  show ?thesis
    using b p unfolding w s by blast
qed

















subsection \<open>Preprocessing: the white-space steps\<close>

lemma SP_not_NL: "SP \<noteq> NL"
  by (simp add: SP_def NL_def)

lemma no_double_space_Nil [simp]: "no_double_space []"
  by (simp add: no_double_space_def)

lemma newlines_tidy_Nil [simp]: "newlines_tidy []"
  by (simp add: newlines_tidy_def)

lemma no_double_space_tl: "no_double_space (x # xs) \<Longrightarrow> no_double_space xs"
  by (cases xs) (simp_all add: no_double_space_def)

lemma newlines_tidy_tl: "newlines_tidy (x # xs) \<Longrightarrow> newlines_tidy xs"
  by (cases xs) (simp_all add: newlines_tidy_def)

lemma no_double_space_Cons:
  "no_double_space (x # xs) \<longleftrightarrow> xs = [] \<or> (\<not> (x = SP \<and> hd xs = SP) \<and> no_double_space xs)"
  by (simp add: no_double_space_def successively_Cons)

lemma no_double_space_append:
  "no_double_space (xs @ ys) \<longleftrightarrow>
     no_double_space xs \<and> no_double_space ys \<and>
     (xs = [] \<or> ys = [] \<or> \<not> (last xs = SP \<and> hd ys = SP))"
  by (simp add: no_double_space_def successively_append_iff)

lemma no_double_space_suffix: "no_double_space (xs @ ys) \<Longrightarrow> no_double_space ys"
  by (simp add: no_double_space_append)

lemma no_double_space_prefix: "no_double_space (xs @ ys) \<Longrightarrow> no_double_space xs"
  by (simp add: no_double_space_append)

lemma collapse_spaces_Cons: "\<exists>ys. collapse_spaces (x # xs) = x # ys"
  by simp

lemma hd_collapse_spaces: "s \<noteq> [] \<Longrightarrow> collapse_spaces s \<noteq> [] \<and> hd (collapse_spaces s) = hd s"
  by (cases s) auto

lemma collapse_spaces_no_double: "no_double_space (collapse_spaces s)"
proof (induction s rule: collapse_spaces.induct)
  case 1
  show ?case by simp
next
  case (2 c cs)
  show ?case
  proof (cases "c = SP")
    case True
    define r where "r = dropWhile (\<lambda>x. x = SP) cs"
    have "collapse_spaces r = [] \<or> hd (collapse_spaces r) \<noteq> SP"
    proof (cases "r = []")
      case True
      then show ?thesis by simp
    next
      case False
      then have "hd r \<noteq> SP"
        unfolding r_def by (rule hd_dropWhile)
      with hd_collapse_spaces [OF False] show ?thesis by simp
    qed
    moreover have "no_double_space (collapse_spaces r)"
      using 2(1) True by (simp add: r_def)
    moreover have "collapse_spaces (c # cs) = SP # collapse_spaces r"
      using True by (simp add: r_def)
    ultimately show ?thesis
      by (auto simp: no_double_space_Cons)
  next
    case False
    then show ?thesis
      using 2(2) by (simp add: no_double_space_Cons)
  qed
qed

lemma collapse_spaces_fix: "no_double_space s \<Longrightarrow> collapse_spaces s = s"
proof (induction s rule: collapse_spaces.induct)
  case 1
  show ?case by simp
next
  case (2 c cs)
  from 2(3) have tl: "no_double_space cs"
    by (rule no_double_space_tl)
  show ?case
  proof (cases "c = SP")
    case True
    with 2(3) have "cs = [] \<or> hd cs \<noteq> SP"
      by (auto simp: no_double_space_Cons)
    then have d: "dropWhile (\<lambda>x. x = SP) cs = cs"
      by (cases cs) auto
    with 2(1) True tl show ?thesis by simp
  next
    case False
    with 2(2) tl show ?thesis by simp
  qed
qed

lemma set_collapse_spaces: "set (collapse_spaces s) \<subseteq> set s"
proof (induction s rule: collapse_spaces.induct)
  case 1
  show ?case by simp
next
  case (2 c cs)
  have "set (dropWhile (\<lambda>x. x = SP) cs) \<subseteq> set cs"
    by (meson set_dropWhileD subsetI)
  with 2 show ?case by auto
qed

lemma after_last_newline_free: "NL \<notin> set (after_last_newline run)"
  unfolding after_last_newline_def using set_takeWhileD [of NL "\<lambda>x. x \<noteq> NL" "rev run"] by auto

lemma after_last_newline_suffix: "\<exists>pre. run = pre @ after_last_newline run"
proof -
  have "rev run = takeWhile (\<lambda>x. x \<noteq> NL) (rev run) @ dropWhile (\<lambda>x. x \<noteq> NL) (rev run)"
    by simp
  then have "rev (rev run) =
      rev (takeWhile (\<lambda>x. x \<noteq> NL) (rev run) @ dropWhile (\<lambda>x. x \<noteq> NL) (rev run))"
    by (rule arg_cong)
  then have "run = rev (dropWhile (\<lambda>x. x \<noteq> NL) (rev run)) @ after_last_newline run"
    by (simp only: rev_rev_ident rev_append after_last_newline_def)
  then show ?thesis ..
qed

lemma after_last_newline_space:
  "\<forall>c \<in> set run. isspace c \<Longrightarrow> \<forall>c \<in> set (after_last_newline run). isspace c"
  using after_last_newline_suffix [of run] by (metis Un_iff set_append)

lemma rest_suffix:
  "\<exists>pre. cs = pre @ after_last_newline (takeWhile isspace cs) @ dropWhile isspace cs"
proof -
  from after_last_newline_suffix [of "takeWhile isspace cs"] obtain pre where
    "takeWhile isspace cs = pre @ after_last_newline (takeWhile isspace cs)" ..
  then have "takeWhile isspace cs @ dropWhile isspace cs =
      (pre @ after_last_newline (takeWhile isspace cs)) @ dropWhile isspace cs"
    by (rule arg_cong)
  then have "cs = pre @ after_last_newline (takeWhile isspace cs) @ dropWhile isspace cs"
    by (simp only: takeWhile_dropWhile_id append_assoc)
  then show ?thesis ..
qed

lemma takeWhile_rest:
  "takeWhile isspace (after_last_newline (takeWhile isspace cs) @ dropWhile isspace cs) =
     after_last_newline (takeWhile isspace cs)"
proof -
  have a: "\<forall>c \<in> set (after_last_newline (takeWhile isspace cs)). isspace c"
    by (rule after_last_newline_space) (meson set_takeWhileD)
  have "takeWhile isspace (dropWhile isspace cs) = []"
    by (metis hd_dropWhile takeWhile.simps(1) takeWhile_eq_Nil_iff)
  with a show ?thesis
    by (simp add: takeWhile_append2)
qed

lemma collapse_blank_lines_Cons: "\<exists>ys. collapse_blank_lines (x # xs) = x # ys"
  by simp

lemma hd_collapse_blank_lines:
  "s \<noteq> [] \<Longrightarrow> collapse_blank_lines s \<noteq> [] \<and> hd (collapse_blank_lines s) = hd s"
  by (cases s) auto

lemma collapse_blank_lines_match:
  "c = NL \<and> NL \<in> set (takeWhile isspace cs) \<Longrightarrow>
     collapse_blank_lines (c # cs) =
       NL # NL #
       collapse_blank_lines (after_last_newline (takeWhile isspace cs) @ dropWhile isspace cs)"
  by simp

lemma collapse_blank_lines_no_match:
  "\<not> (c = NL \<and> NL \<in> set (takeWhile isspace cs)) \<Longrightarrow>
     collapse_blank_lines (c # cs) = c # collapse_blank_lines cs"
  by auto

lemma collapse_blank_lines_no_double:
  "no_double_space s \<Longrightarrow> no_double_space (collapse_blank_lines s)"
proof (induction s rule: collapse_blank_lines.induct)
  case 1
  show ?case by simp
next
  case (2 c cs)
  let ?rest = "after_last_newline (takeWhile isspace cs) @ dropWhile isspace cs"
  from 2(3) have cs: "no_double_space cs"
    by (rule no_double_space_tl)
  show ?case
  proof (cases "c = NL \<and> NL \<in> set (takeWhile isspace cs)")
    case True
    from rest_suffix [of cs] obtain pre where "cs = pre @ ?rest" ..
    with cs have "no_double_space ?rest"
      by (metis no_double_space_suffix)
    with 2(1) True have "no_double_space (collapse_blank_lines ?rest)"
      by simp
    then have "no_double_space (NL # NL # collapse_blank_lines ?rest)"
      using SP_not_NL by (simp add: no_double_space_Cons)
    with True show ?thesis by simp
  next
    case False
    with 2(2) cs have n: "no_double_space (collapse_blank_lines cs)"
      by simp
    have h: "cs = [] \<or> \<not> (c = SP \<and> hd cs = SP)"
      using 2(3) by (auto simp: no_double_space_Cons)
    have "collapse_blank_lines cs = [] \<or> \<not> (c = SP \<and> hd (collapse_blank_lines cs) = SP)"
    proof (cases "cs = []")
      case True
      then show ?thesis by simp
    next
      case ne: False
      with h hd_collapse_blank_lines [OF ne] show ?thesis by simp
    qed
    with n have "no_double_space (c # collapse_blank_lines cs)"
      by (auto simp: no_double_space_Cons)
    then show ?thesis
      by (simp only: collapse_blank_lines_no_match [OF False])
  qed
qed

lemma set_collapse_blank_lines: "set (collapse_blank_lines s) \<subseteq> set s"
proof (induction s rule: collapse_blank_lines.induct)
  case 1
  show ?case by simp
next
  case (2 c cs)
  let ?rest = "after_last_newline (takeWhile isspace cs) @ dropWhile isspace cs"
  show ?case
  proof (cases "c = NL \<and> NL \<in> set (takeWhile isspace cs)")
    case True
    from rest_suffix [of cs] obtain pre where "cs = pre @ ?rest" ..
    then have "set ?rest \<subseteq> set cs"
      by (metis Un_upper2 set_append)
    moreover from 2(1) True have "set (collapse_blank_lines ?rest) \<subseteq> set ?rest"
      by simp
    ultimately show ?thesis
      using True by auto
  next
    case False
    with 2(2) show ?thesis by auto
  qed
qed

lemma collapse_blank_lines_budget:
  "k = 0 \<or> (k \<le> 2 \<and> NL \<notin> set (takeWhile isspace s)) \<Longrightarrow>
     newline_budget k (collapse_blank_lines s)"
proof (induction s arbitrary: k rule: collapse_blank_lines.induct)
  case 1
  show ?case by simp
next
  case (2 c cs)
  let ?rest = "after_last_newline (takeWhile isspace cs) @ dropWhile isspace cs"
  show ?case
  proof (cases "c = NL")
    case True
    with 2(3) have k: "k = 0" by simp
    show ?thesis
    proof (cases "NL \<in> set (takeWhile isspace cs)")
      case m: True
      have "NL \<notin> set (takeWhile isspace ?rest)"
        unfolding takeWhile_rest by (rule after_last_newline_free)
      then have "newline_budget 2 (collapse_blank_lines ?rest)"
        using 2(1) [of 2] True m by simp
      then show ?thesis
        using True m k by (simp add: numeral_2_eq_2)
    next
      case m: False
      then have "newline_budget 1 (collapse_blank_lines cs)"
        using 2(2) [of 1] by simp
      then show ?thesis
        using True m k by simp
    qed
  next
    case False
    show ?thesis
    proof (cases "isspace c")
      case s: True
      from 2(3) s have "k = 0 \<or> (k \<le> 2 \<and> NL \<notin> set (takeWhile isspace cs))"
        by auto
      then have "newline_budget k (collapse_blank_lines cs)"
        using 2(2) [of k] False by simp
      then show ?thesis
        using False s by simp
    next
      case s: False
      have "newline_budget 0 (collapse_blank_lines cs)"
        using 2(2) [of 0] False by simp
      then show ?thesis
        using False s by simp
    qed
  qed
qed

lemma newlines_tidy_Cons:
  "newlines_tidy (x # xs) \<longleftrightarrow>
     xs = [] \<or>
     ((x = NL \<longrightarrow> hd xs = NL \<or> \<not> isspace (hd xs)) \<and> (hd xs = NL \<longrightarrow> x = NL \<or> \<not> isspace x) \<and>
      newlines_tidy xs)"
  by (simp add: newlines_tidy_def successively_Cons)

lemma collapse_blank_lines_fix:
  "newlines_tidy s \<Longrightarrow> newline_budget k s \<Longrightarrow> collapse_blank_lines s = s"
proof (induction s arbitrary: k rule: collapse_blank_lines.induct)
  case 1
  show ?case by simp
next
  case (2 c cs)
  have tidy: "newlines_tidy cs"
    using 2(3) by (rule newlines_tidy_tl)
  show ?case
  proof (cases "c = NL")
    case False
    from 2(4) False obtain k' where "newline_budget k' cs"
      by (auto split: if_splits)
    with 2(2) [of k'] False tidy show ?thesis by simp
  next
    case True
    with 2(4) have k: "k < 2" and b: "newline_budget (Suc k) cs"
      by simp_all
    show ?thesis
    proof (cases cs)
      case Nil
      with True show ?thesis by simp
    next
      case (Cons d ds)
      with 2(3) True have d: "d = NL \<or> \<not> isspace d"
        by (simp add: newlines_tidy_Cons)
      show ?thesis
      proof (cases "d = NL")
        case nd: False
        with d have "takeWhile isspace cs = []"
          by (simp add: Cons)
        with 2(2) [of "Suc k"] tidy b True show ?thesis by simp
      next
        case dn: True
        have "newline_budget (Suc k) (NL # ds)"
          using b unfolding Cons dn .
        then have k0: "Suc k < 2" and b2: "newline_budget (Suc (Suc k)) ds"
          by (simp_all only: newline_budget.simps if_True simp_thms)
        have e: "ds = [] \<or> \<not> isspace (hd ds)"
        proof (cases ds)
          case Nil
          then show ?thesis by simp
        next
          case (Cons e es)
          with tidy \<open>cs = d # ds\<close> dn have "e = NL \<or> \<not> isspace e"
            by (simp add: newlines_tidy_Cons)
          moreover have "e \<noteq> NL"
            using b2 k0 Cons by auto
          ultimately show ?thesis
            using Cons by simp
        qed
        then have run: "takeWhile isspace cs = [NL]"
          using Cons dn by (cases ds) auto
        have drop: "dropWhile isspace cs = ds"
          using e Cons dn by (cases ds) auto
        have rest: "after_last_newline (takeWhile isspace cs) @ dropWhile isspace cs = ds"
          by (simp add: run drop after_last_newline_def)
        have tidy': "newlines_tidy ds"
          using tidy Cons newlines_tidy_tl by blast
        have cond: "c = NL \<and> NL \<in> set (takeWhile isspace cs)"
          using True run by simp
        have "collapse_blank_lines ds = ds"
          using 2(1) [OF cond, unfolded rest, OF tidy' b2] .
        then show ?thesis
          using True run rest Cons dn by simp
      qed
    qed
  qed
qed

lemma join_newline_Cons: "ls \<noteq> [] \<Longrightarrow> join [NL] (l # ls) = l @ NL # join [NL] ls"
  by (cases ls) simp_all

lemma join_Cons_hd: "join sep ((c # l) # ls) = c # join sep (l # ls)"
  by (cases ls) simp_all

lemma join_split_lines: "join [NL] (split_lines z) = z"
proof (induction z)
  case Nil
  show ?case by simp
next
  case (Cons c cs)
  obtain l ls where sp: "split_lines cs = l # ls"
    using split_lines_nonempty [of cs] by (cases "split_lines cs") auto
  show ?case
  proof (cases "c = NL")
    case True
    then show ?thesis
      using Cons split_lines_nonempty [of cs] by (simp add: join_newline_Cons)
  next
    case False
    then show ?thesis
      using Cons sp by (simp add: join_Cons_hd)
  qed
qed

lemma split_lines_free: "l \<in> set (split_lines z) \<Longrightarrow> NL \<notin> set l"
proof (induction z arbitrary: l)
  case Nil
  then show ?case by simp
next
  case (Cons c cs)
  obtain m ms where sp: "split_lines cs = m # ms"
    using split_lines_nonempty [of cs] by (cases "split_lines cs") auto
  show ?case
  proof (cases "c = NL")
    case True
    with Cons show ?thesis by auto
  next
    case False
    with Cons.prems sp have "l = c # m \<or> l \<in> set ms"
      by simp
    then show ?thesis
      using Cons.IH [of m] Cons.IH [of l] sp False by auto
  qed
qed

lemma set_join: "set (join sep ls) \<subseteq> set sep \<union> (\<Union>l \<in> set ls. set l)"
  by (induction sep ls rule: join.induct) auto

lemma set_split_lines: "(\<Union>l \<in> set (split_lines z). set l) \<subseteq> set z"
proof (induction z)
  case Nil
  show ?case by simp
next
  case (Cons c cs)
  obtain m ms where sp: "split_lines cs = m # ms"
    using split_lines_nonempty [of cs] by (cases "split_lines cs") auto
  show ?case
    using Cons sp by (cases "c = NL") auto
qed

lemma set_strip_lines: "set (strip_lines z) \<subseteq> insert NL (set z)"
proof
  fix x assume "x \<in> set (strip_lines z)"
  then have "x \<in> set [NL] \<union> (\<Union>l \<in> set (map strip (split_lines z)). set l)"
    unfolding strip_lines_def using set_join by blast
  then show "x \<in> insert NL (set z)"
    using set_strip set_split_lines [of z] by fastforce
qed

lemma no_double_space_join:
  "no_double_space (join [NL] ls) \<longleftrightarrow> (\<forall>l \<in> set ls. no_double_space l)"
proof (induction "[NL]" ls rule: join.induct)
  case 1
  show ?case by simp
next
  case (2 l)
  show ?case by simp
next
  case (3 l m ls)
  have "no_double_space (l @ NL # join [NL] (m # ls)) \<longleftrightarrow>
      no_double_space l \<and> no_double_space (join [NL] (m # ls))"
    using SP_not_NL by (auto simp: no_double_space_append no_double_space_Cons)
  with 3 show ?case by simp
qed

lemma no_double_space_strip: "no_double_space l \<Longrightarrow> no_double_space (strip l)"
proof -
  assume a: "no_double_space l"
  from strip_decomposition [of l] obtain x y where "l = x @ strip l @ y"
    by blast
  with a have "no_double_space (x @ strip l @ y)" by simp
  then show ?thesis
    by (meson no_double_space_prefix no_double_space_suffix)
qed

lemma strip_lines_no_double: "no_double_space z \<Longrightarrow> no_double_space (strip_lines z)"
proof -
  assume "no_double_space z"
  then have "no_double_space (join [NL] (split_lines z))"
    by (simp add: join_split_lines)
  then have "\<forall>l \<in> set (split_lines z). no_double_space l"
    by (simp add: no_double_space_join)
  then have "\<forall>l \<in> set (map strip (split_lines z)). no_double_space l"
    by (simp add: no_double_space_strip)
  then show ?thesis
    unfolding strip_lines_def by (simp only: no_double_space_join)
qed

lemma newline_budget_line:
  "NL \<notin> set l \<Longrightarrow>
     newline_budget k (l @ s) = newline_budget (if \<exists>c \<in> set l. \<not> isspace c then 0 else k) s"
proof (induction l arbitrary: k)
  case Nil
  show ?case by simp
next
  case (Cons c cs)
  then have c: "c \<noteq> NL" and cs: "NL \<notin> set cs" by auto
  show ?case
  proof (cases "isspace c")
    case True
    then show ?thesis
      using Cons.IH [OF cs, of k] c by simp
  next
    case False
    then show ?thesis
      using Cons.IH [OF cs, of 0] c by auto
  qed
qed

lemma strip_has_text: "(\<exists>c \<in> set (strip l). \<not> isspace c) \<longleftrightarrow> (\<exists>c \<in> set l. \<not> isspace c)"
proof
  assume "\<exists>c \<in> set (strip l). \<not> isspace c"
  then show "\<exists>c \<in> set l. \<not> isspace c"
    using set_strip [of l] by blast
next
  assume "\<exists>c \<in> set l. \<not> isspace c"
  then have ne: "strip l \<noteq> []"
    by (simp add: strip_eq_Nil)
  then have "\<not> isspace (hd (strip l))" by (rule strip_hd)
  moreover have "hd (strip l) \<in> set (strip l)" using ne by simp
  ultimately show "\<exists>c \<in> set (strip l). \<not> isspace c" by blast
qed

lemma newline_budget_join_strip:
  "\<forall>l \<in> set ls. NL \<notin> set l \<Longrightarrow>
     newline_budget k (join [NL] (map strip ls)) = newline_budget k (join [NL] ls)"
proof (induction "[NL]" ls arbitrary: k rule: join.induct)
  case 1
  show ?case by simp
next
  case (2 l)
  then have "NL \<notin> set l" by simp
  moreover then have "NL \<notin> set (strip l)"
    using set_strip [of l] by blast
  ultimately show ?case
    using newline_budget_line [of l k "[]"] newline_budget_line [of "strip l" k "[]"]
    by simp
next
  case (3 l m ls)
  then have l: "NL \<notin> set l" and rest: "\<forall>x \<in> set (m # ls). NL \<notin> set x"
    by simp_all
  from l have sl: "NL \<notin> set (strip l)"
    using set_strip [of l] by blast
  define k' where "k' = (if \<exists>c \<in> set l. \<not> isspace c then 0 else k)"
  have k'': "k' = (if \<exists>c \<in> set (strip l). \<not> isspace c then 0 else k)"
    by (simp only: k'_def strip_has_text)
  have a: "newline_budget k (l @ NL # join [NL] (m # ls)) =
      newline_budget k' (NL # join [NL] (m # ls))"
    unfolding k'_def by (rule newline_budget_line [OF l])
  have b: "newline_budget k (strip l @ NL # join [NL] (map strip (m # ls))) =
      newline_budget k' (NL # join [NL] (map strip (m # ls)))"
    unfolding k'' by (rule newline_budget_line [OF sl])
  have ih: "newline_budget (Suc k') (join [NL] (map strip (m # ls))) =
      newline_budget (Suc k') (join [NL] (m # ls))"
    using 3(1) [OF rest] .
  have "join [NL] (map strip (l # m # ls)) = strip l @ NL # join [NL] (map strip (m # ls))"
    by simp
  moreover have "join [NL] (l # m # ls) = l @ NL # join [NL] (m # ls)"
    by simp
  ultimately show ?case
    using a b ih by simp
qed

lemma strip_lines_budget: "newline_budget k (strip_lines z) = newline_budget k z"
proof -
  have "newline_budget k (join [NL] (map strip (split_lines z))) =
      newline_budget k (join [NL] (split_lines z))"
    by (rule newline_budget_join_strip) (simp add: split_lines_free)
  then show ?thesis
    by (simp add: strip_lines_def join_split_lines)
qed

lemma newlines_tidy_free: "NL \<notin> set l \<Longrightarrow> newlines_tidy l"
  unfolding newlines_tidy_def successively_conv_nth
  by (metis Suc_lessD nth_mem)

lemma newlines_tidy_append:
  "newlines_tidy (xs @ ys) \<longleftrightarrow>
     newlines_tidy xs \<and> newlines_tidy ys \<and>
     (xs = [] \<or> ys = [] \<or>
      ((last xs = NL \<longrightarrow> hd ys = NL \<or> \<not> isspace (hd ys)) \<and>
       (hd ys = NL \<longrightarrow> last xs = NL \<or> \<not> isspace (last xs))))"
  by (simp add: newlines_tidy_def successively_append_iff)

lemma tidy_join:
  assumes "\<forall>l \<in> set ls. NL \<notin> set l \<and> strip l = l"
  shows "newlines_tidy (join [NL] ls) \<and>
         (join [NL] ls = [] \<or> hd (join [NL] ls) = NL \<or> \<not> isspace (hd (join [NL] ls))) \<and>
         (join [NL] ls = [] \<or> last (join [NL] ls) = NL \<or> \<not> isspace (last (join [NL] ls)))"
  using assms
proof (induction "[NL]" ls rule: join.induct)
  case 1
  show ?case by simp
next
  case (2 l)
  then have f: "NL \<notin> set l" and s: "strip l = l" by simp_all
  have "l = [] \<or> (\<not> isspace (hd l) \<and> \<not> isspace (last l))"
    using strip_hd [of l] strip_last [of l] s by auto
  with f show ?case
    by (auto simp: newlines_tidy_free)
next
  case (3 l m ls)
  then have f: "NL \<notin> set l" and s: "strip l = l"
    and rest: "\<forall>x \<in> set (m # ls). NL \<notin> set x \<and> strip x = x"
    by simp_all
  define X where "X = join [NL] (m # ls)"
  from 3(1) [OF rest] have ih: "newlines_tidy X"
    "X = [] \<or> hd X = NL \<or> \<not> isspace (hd X)"
    "X = [] \<or> last X = NL \<or> \<not> isspace (last X)"
    by (simp_all add: X_def)
  have l: "l = [] \<or> (\<not> isspace (hd l) \<and> \<not> isspace (last l))"
    using strip_hd [of l] strip_last [of l] s by auto
  have J: "join [NL] (l # m # ls) = l @ NL # X"
    by (simp add: X_def)
  have t1: "newlines_tidy (NL # X)"
    using ih(1,2) by (auto simp: newlines_tidy_Cons)
  have t: "newlines_tidy (l @ NL # X)"
    using t1 l f by (auto simp: newlines_tidy_append newlines_tidy_free)
  have h: "hd (l @ NL # X) = NL \<or> \<not> isspace (hd (l @ NL # X))"
    using l by (cases l) auto
  have e: "last (l @ NL # X) = NL \<or> \<not> isspace (last (l @ NL # X))"
    using ih(3) by auto
  show ?case
    unfolding J using t h e by simp
qed

lemma strip_lines_tidy:
  "newlines_tidy (strip_lines z) \<and>
   (strip_lines z = [] \<or> hd (strip_lines z) = NL \<or> \<not> isspace (hd (strip_lines z))) \<and>
   (strip_lines z = [] \<or> last (strip_lines z) = NL \<or> \<not> isspace (last (strip_lines z)))"
  unfolding strip_lines_def
proof (rule tidy_join)
  show "\<forall>l \<in> set (map strip (split_lines z)). NL \<notin> set l \<and> strip l = l"
    using split_lines_free set_strip by (fastforce simp: strip_strip)
qed

lemma lines_stripped:
  assumes "\<forall>l \<in> set ls. NL \<notin> set l"
    and "newlines_tidy (join [NL] ls)"
    and "join [NL] ls = [] \<or> hd (join [NL] ls) = NL \<or> \<not> isspace (hd (join [NL] ls))"
    and "join [NL] ls = [] \<or> last (join [NL] ls) = NL \<or> \<not> isspace (last (join [NL] ls))"
  shows "\<forall>l \<in> set ls. strip l = l"
  using assms
proof (induction "[NL]" ls rule: join.induct)
  case 1
  show ?case by simp
next
  case (2 l)
  then have f: "NL \<notin> set l" by simp
  have "l = [] \<or> (\<not> isspace (hd l) \<and> \<not> isspace (last l))"
  proof (cases "l = []")
    case True
    then show ?thesis by simp
  next
    case False
    then have "hd l \<in> set l" "last l \<in> set l" by simp_all
    with f have "hd l \<noteq> NL" "last l \<noteq> NL" by auto
    with 2(3,4) False show ?thesis by simp
  qed
  then show ?case
    by (simp add: strip_id)
next
  case (3 l m ls)
  then have f: "NL \<notin> set l" and rest: "\<forall>x \<in> set (m # ls). NL \<notin> set x"
    by simp_all
  define X where "X = join [NL] (m # ls)"
  have J: "join [NL] (l # m # ls) = l @ NL # X"
    by (simp add: X_def)
  from 3(3) have t: "newlines_tidy (l @ NL # X)"
    unfolding J .
  then have t1: "newlines_tidy (NL # X)" and b: "l = [] \<or> last l = NL \<or> \<not> isspace (last l)"
    by (auto simp: newlines_tidy_append)
  have sl: "strip l = l"
  proof (cases "l = []")
    case True
    then show ?thesis by (simp add: strip_id)
  next
    case False
    then have "hd l \<in> set l" "last l \<in> set l" by simp_all
    with f have n: "hd l \<noteq> NL" "last l \<noteq> NL" by auto
    from 3(4) False have "hd l = NL \<or> \<not> isspace (hd l)"
      unfolding J by simp
    with n b False show ?thesis
      by (simp add: strip_id)
  qed
  have x1: "newlines_tidy X"
    using t1 by (rule newlines_tidy_tl)
  have x2: "X = [] \<or> hd X = NL \<or> \<not> isspace (hd X)"
    using t1 by (auto simp: newlines_tidy_Cons)
  have x3: "X = [] \<or> last X = NL \<or> \<not> isspace (last X)"
    using 3(5) unfolding J by auto
  have "\<forall>x \<in> set (m # ls). strip x = x"
    using 3(1) [OF rest] x1 x2 x3 unfolding X_def by blast
  with sl show ?case by simp
qed

lemma strip_lines_fix:
  assumes "newlines_tidy t"
    and "t = [] \<or> hd t = NL \<or> \<not> isspace (hd t)"
    and "t = [] \<or> last t = NL \<or> \<not> isspace (last t)"
  shows "strip_lines t = t"
proof -
  have "\<forall>l \<in> set (split_lines t). strip l = l"
    by (rule lines_stripped) (simp_all add: join_split_lines split_lines_free assms)
  then have "map strip (split_lines t) = split_lines t"
    by (simp add: map_idI)
  then show ?thesis
    by (simp add: strip_lines_def join_split_lines)
qed

lemma newline_budget_prefix: "newline_budget k (xs @ ys) \<Longrightarrow> newline_budget k xs"
  by (induction xs arbitrary: k) (auto split: if_splits)

lemma newline_budget_mono: "newline_budget k s \<Longrightarrow> k' \<le> k \<Longrightarrow> newline_budget k' s"
proof (induction s arbitrary: k k')
  case Nil
  show ?case by simp
next
  case (Cons c cs)
  show ?case
  proof (cases "c = NL")
    case True
    with Cons.prems have "k < 2" "newline_budget (Suc k) cs" by simp_all
    with Cons.IH [of "Suc k" "Suc k'"] Cons.prems(2) True show ?thesis by simp
  next
    case False
    with Cons show ?thesis by (cases "isspace c") auto
  qed
qed

lemma newline_budget_suffix: "newline_budget k (xs @ ys) \<Longrightarrow> newline_budget 0 ys"
proof (induction xs arbitrary: k)
  case Nil
  then show ?case
    using newline_budget_mono [of k ys 0] by simp
next
  case (Cons x xs)
  then obtain k' where "newline_budget k' (xs @ ys)"
    by (auto split: if_splits)
  then show ?case by (rule Cons.IH)
qed

lemma strip_budget: "newline_budget k s \<Longrightarrow> newline_budget 0 (strip s)"
proof -
  assume a: "newline_budget k s"
  from strip_decomposition [of s] obtain x y where "s = x @ strip s @ y"
    by blast
  with a have "newline_budget k (x @ strip s @ y)" by simp
  then have "newline_budget 0 (strip s @ y)"
    by (rule newline_budget_suffix)
  then show ?thesis
    by (rule newline_budget_prefix)
qed

lemma strip_tidy: "newlines_tidy s \<Longrightarrow> newlines_tidy (strip s)"
proof -
  assume a: "newlines_tidy s"
  from strip_decomposition [of s] obtain x y where "s = x @ strip s @ y"
    by blast
  with a have "newlines_tidy (x @ strip s @ y)" by simp
  then show ?thesis
    by (simp add: newlines_tidy_append)
qed

subsection \<open>Preprocessing: the pipeline\<close>

lemma remove_extra_whitespace_no_double: "no_double_space (remove_extra_whitespace text)"
  unfolding remove_extra_whitespace_def
  by (intro strip_lines_no_double collapse_blank_lines_no_double collapse_spaces_no_double)

lemma remove_extra_whitespace_tidy:
  "newlines_tidy (remove_extra_whitespace text) \<and>
   newline_budget 0 (remove_extra_whitespace text)"
proof -
  have "newline_budget 0 (collapse_blank_lines (collapse_spaces text))"
    by (rule collapse_blank_lines_budget) simp
  then show ?thesis
    unfolding remove_extra_whitespace_def
    using strip_lines_tidy by (simp add: strip_lines_budget)
qed

lemma set_remove_extra_whitespace:
  "set (remove_extra_whitespace text) \<subseteq> insert NL (set text)"
  unfolding remove_extra_whitespace_def
  using set_strip_lines [of "collapse_blank_lines (collapse_spaces text)"]
    set_collapse_blank_lines [of "collapse_spaces text"] set_collapse_spaces [of "text"]
  by blast

lemma allowed_char_NL: "allowed_char b NL"
  by (simp add: allowed_char_def)

lemma allowed_char_explicit:
  "allowed_char b c \<longleftrightarrow>
     (97 \<le> c \<and> c \<le> 122) \<or> (65 \<le> c \<and> c \<le> 90) \<or> (48 \<le> c \<and> c \<le> 57) \<or> isspace c \<or>
     (b \<and> c \<in> set (str ''.,;:()-+#/''))"
  using isspace_NL by (auto simp: allowed_char_def alphanumeric_def)

lemma no_double_space_explicit:
  "no_double_space t \<longleftrightarrow> (\<forall>i. Suc i < length t \<longrightarrow> \<not> (t ! i = 32 \<and> t ! Suc i = 32))"
  by (simp add: no_double_space_def successively_conv_nth SP_def)

lemma remove_special_characters_fix:
  "\<forall>c \<in> set s. allowed_char b c \<Longrightarrow> remove_special_characters s b = s"
  by (simp add: remove_special_characters_def)

lemma remove_extra_whitespace_fix:
  assumes "no_double_space t" "newlines_tidy t" "newline_budget k t"
    and "t = [] \<or> (\<not> isspace (hd t) \<and> \<not> isspace (last t))"
  shows "remove_extra_whitespace t = t"
proof -
  have 1: "collapse_spaces t = t"
    using assms(1) by (rule collapse_spaces_fix)
  have 2: "collapse_blank_lines t = t"
    using assms(2,3) by (rule collapse_blank_lines_fix)
  have 3: "strip_lines t = t"
    using assms(2,4) by (intro strip_lines_fix) auto
  show ?thesis
    by (simp add: remove_extra_whitespace_def 1 2 3)
qed

lemma preprocess_Inr:
  "preprocess text aggressive = Inr t \<longleftrightarrow>
     strip text \<noteq> [] \<and> t \<noteq> [] \<and>
     t = strip (remove_special_characters (remove_extra_whitespace text) (\<not> aggressive))"
proof -
  have "strip [] = []"
    by (simp add: strip_eq_Nil)
  then show ?thesis
    by (auto simp: preprocess_def Let_def)
qed

lemma preprocess_stable:
  assumes "\<forall>c \<in> set text. allowed_char (\<not> aggressive) c"
    and "preprocess text aggressive = Inr t"
  shows "preprocess t aggressive = Inr t \<and> no_double_space t"
proof -
  define u where "u = remove_extra_whitespace text"
  have au: "\<forall>c \<in> set u. allowed_char (\<not> aggressive) c"
    using assms(1) set_remove_extra_whitespace [of "text"] allowed_char_NL
    unfolding u_def by blast
  then have f: "remove_special_characters u (\<not> aggressive) = u"
    by (rule remove_special_characters_fix)
  from assms(2) have "t \<noteq> [] \<and>
      t = strip (remove_special_characters (remove_extra_whitespace text) (\<not> aggressive))"
    unfolding preprocess_Inr by blast
  then have t: "t = strip u" and ne: "t \<noteq> []"
    unfolding u_def [symmetric] f by blast+
  have u1: "no_double_space u" and u2: "newlines_tidy u" and u3: "newline_budget 0 u"
    unfolding u_def using remove_extra_whitespace_no_double remove_extra_whitespace_tidy
    by simp_all
  have t1: "no_double_space t"
    unfolding t using u1 by (rule no_double_space_strip)
  have t2: "newlines_tidy t"
    unfolding t using u2 by (rule strip_tidy)
  have t3: "newline_budget 0 t"
    unfolding t using u3 by (rule strip_budget)
  have t4: "\<not> isspace (hd t) \<and> \<not> isspace (last t)"
    using ne strip_hd [of u] strip_last [of u] unfolding t by simp
  have t5: "\<forall>c \<in> set t. allowed_char (\<not> aggressive) c"
    using au set_strip [of u] unfolding t by blast
  have s: "strip t = t"
    using t4 by (simp add: strip_id)
  have r: "remove_extra_whitespace t = t"
    using t1 t2 t3 t4 by (intro remove_extra_whitespace_fix) auto
  have f': "remove_special_characters t (\<not> aggressive) = t"
    using t5 by (rule remove_special_characters_fix)
  have "preprocess t aggressive = Inr t"
    unfolding preprocess_Inr using ne by (simp add: r f' s)
  with t1 show ?thesis by simp
qed

lemma preprocess_chars:
  assumes "preprocess text aggressive = Inr t"
  shows "t \<noteq> [] \<and> \<not> isspace (hd t) \<and> \<not> isspace (last t) \<and>
         (\<forall>c \<in> set t. allowed_char (\<not> aggressive) c)"
proof -
  define v where "v = remove_special_characters (remove_extra_whitespace text) (\<not> aggressive)"
  from assms have "t \<noteq> [] \<and>
      t = strip (remove_special_characters (remove_extra_whitespace text) (\<not> aggressive))"
    unfolding preprocess_Inr by blast
  then have t: "t = strip v" and ne: "t \<noteq> []"
    unfolding v_def [symmetric] by blast+
  have "\<forall>c \<in> set v. allowed_char (\<not> aggressive) c"
    by (simp add: v_def remove_special_characters_def)
  then have "\<forall>c \<in> set t. allowed_char (\<not> aggressive) c"
    using set_strip [of v] unfolding t by blast
  moreover have "\<not> isspace (hd t) \<and> \<not> isspace (last t)"
    using ne strip_hd [of v] strip_last [of v] unfolding t by simp
  ultimately show ?thesis
    using ne by simp
qed

text \<open>
  The white-space steps remove and insert white space only: the characters that are not
  white space pass through them, in their order.
\<close>

lemma filter_dropWhile_other:
  "(\<And>x. Q x \<Longrightarrow> \<not> P x) \<Longrightarrow> filter P (dropWhile Q xs) = filter P xs"
  by (induction xs) auto

lemma filter_takeWhile_other:
  "(\<And>x. Q x \<Longrightarrow> \<not> P x) \<Longrightarrow> filter P (takeWhile Q xs) = []"
  by (induction xs) auto

lemma text_collapse_spaces:
  "filter (\<lambda>c. \<not> isspace c) (collapse_spaces s) = filter (\<lambda>c. \<not> isspace c) s"
proof (induction s rule: collapse_spaces.induct)
  case 1
  show ?case by simp
next
  case (2 c cs)
  show ?case
  proof (cases "c = SP")
    case True
    have "filter (\<lambda>c. \<not> isspace c) (dropWhile (\<lambda>x. x = SP) cs) = filter (\<lambda>c. \<not> isspace c) cs"
      by (rule filter_dropWhile_other) simp
    with True 2(1) show ?thesis by simp
  next
    case False
    with 2(2) show ?thesis by simp
  qed
qed

lemma text_collapse_blank_lines:
  "filter (\<lambda>c. \<not> isspace c) (collapse_blank_lines s) = filter (\<lambda>c. \<not> isspace c) s"
proof (induction s rule: collapse_blank_lines.induct)
  case 1
  show ?case by simp
next
  case (2 c cs)
  let ?ns = "\<lambda>c. \<not> isspace c"
  show ?case
  proof (cases "c = NL \<and> NL \<in> set (takeWhile isspace cs)")
    case True
    have run: "\<forall>x \<in> set (takeWhile isspace cs). isspace x"
      by (meson set_takeWhileD)
    then have "\<forall>x \<in> set (after_last_newline (takeWhile isspace cs)). isspace x"
      by (rule after_last_newline_space)
    then have a: "filter ?ns (after_last_newline (takeWhile isspace cs)) = []"
      by (simp add: filter_empty_conv)
    have "filter ?ns cs = filter ?ns (takeWhile isspace cs @ dropWhile isspace cs)"
      by simp
    also have "\<dots> = filter ?ns (dropWhile isspace cs)"
      using run by (simp only: filter_append) (simp add: filter_empty_conv)
    finally have b: "filter ?ns cs = filter ?ns (dropWhile isspace cs)" .
    have "collapse_blank_lines (c # cs) =
        NL # NL # collapse_blank_lines (after_last_newline (takeWhile isspace cs) @ dropWhile isspace cs)"
      using True by (rule collapse_blank_lines_match)
    then have "filter ?ns (collapse_blank_lines (c # cs)) =
        filter ?ns (after_last_newline (takeWhile isspace cs) @ dropWhile isspace cs)"
      using 2(1) [OF True] by simp
    also have "\<dots> = filter ?ns (dropWhile isspace cs)"
      using a by simp
    finally show ?thesis
      using True b by simp
  next
    case False
    have "collapse_blank_lines (c # cs) = c # collapse_blank_lines cs"
      using False by (rule collapse_blank_lines_no_match)
    then show ?thesis
      using 2(2) [OF False] by simp
  qed
qed

lemma text_strip: "filter (\<lambda>c. \<not> isspace c) (strip l) = filter (\<lambda>c. \<not> isspace c) l"
proof -
  from strip_decomposition [of l] obtain a b where
    ab: "l = a @ strip l @ b" "\<forall>c \<in> set a. isspace c" "\<forall>c \<in> set b. isspace c"
    by blast
  have "filter (\<lambda>c. \<not> isspace c) l =
      filter (\<lambda>c. \<not> isspace c) a @ filter (\<lambda>c. \<not> isspace c) (strip l) @
      filter (\<lambda>c. \<not> isspace c) b"
    using ab(1) by (metis filter_append)
  moreover have "filter (\<lambda>c. \<not> isspace c) a = []" "filter (\<lambda>c. \<not> isspace c) b = []"
    using ab(2,3) by (simp_all add: filter_empty_conv)
  ultimately show ?thesis by simp
qed

lemma filter_join_newline:
  "\<not> P NL \<Longrightarrow> filter P (join [NL] ls) = concat (map (filter P) ls)"
  by (induction "[NL]" ls rule: join.induct) simp_all

lemma text_strip_lines:
  "filter (\<lambda>c. \<not> isspace c) (strip_lines z) = filter (\<lambda>c. \<not> isspace c) z"
proof -
  let ?ns = "\<lambda>c. \<not> isspace c"
  have "filter ?ns (strip_lines z) = concat (map (filter ?ns) (map strip (split_lines z)))"
    unfolding strip_lines_def by (rule filter_join_newline) simp
  also have "\<dots> = concat (map (filter ?ns) (split_lines z))"
    by (simp add: text_strip comp_def)
  also have "\<dots> = filter ?ns (join [NL] (split_lines z))"
    by (rule filter_join_newline [symmetric]) simp
  finally show ?thesis
    by (simp only: join_split_lines)
qed

lemma text_remove_extra_whitespace:
  "filter (\<lambda>c. \<not> isspace c) (remove_extra_whitespace text) = filter (\<lambda>c. \<not> isspace c) text"
  by (simp only: remove_extra_whitespace_def text_strip_lines text_collapse_blank_lines
        text_collapse_spaces)

lemma visible_explicit:
  "\<not> isspace c \<and> allowed_char b c \<longleftrightarrow>
     (97 \<le> c \<and> c \<le> 122) \<or> (65 \<le> c \<and> c \<le> 90) \<or> (48 \<le> c \<and> c \<le> 57) \<or>
     (b \<and> c \<in> set (str ''.,;:()-+#/''))"
  unfolding allowed_char_explicit by (auto simp: isspace_def str_def)

lemma text_pipeline:
  "filter (\<lambda>c. \<not> isspace c)
     (strip (remove_special_characters (remove_extra_whitespace text) b)) =
   filter (\<lambda>c. \<not> isspace c \<and> allowed_char b c) text"
proof -
  have "filter (\<lambda>c. \<not> isspace c)
          (strip (remove_special_characters (remove_extra_whitespace text) b)) =
        filter (\<lambda>c. \<not> isspace c) (filter (allowed_char b) (remove_extra_whitespace text))"
    by (simp only: text_strip remove_special_characters_def)
  also have "\<dots> = filter (allowed_char b) (filter (\<lambda>c. \<not> isspace c) (remove_extra_whitespace text))"
    by (simp add: conj_commute)
  also have "\<dots> = filter (allowed_char b) (filter (\<lambda>c. \<not> isspace c) text)"
    by (simp only: text_remove_extra_whitespace)
  also have "\<dots> = filter (\<lambda>c. \<not> isspace c \<and> allowed_char b c) text"
    by (simp add: conj_commute)
  finally show ?thesis .
qed

lemma preprocess_text:
  assumes "preprocess text aggressive = Inr t"
  shows "filter (\<lambda>c. \<not> isspace c) t =
         filter (\<lambda>c. \<not> isspace c \<and> allowed_char (\<not> aggressive) c) text"
proof -
  from assms have "t = strip (remove_special_characters (remove_extra_whitespace text) (\<not> aggressive))"
    unfolding preprocess_Inr by blast
  then show ?thesis
    by (simp only: text_pipeline)
qed

lemma preprocess_result:
  "preprocess text aggressive =
     (if \<forall>c \<in> set text. isspace c then Inl EmptyText
      else if \<forall>c \<in> set text. isspace c \<or> \<not> allowed_char (\<not> aggressive) c
           then Inl EmptyAfterPreprocessing
      else Inr (strip (remove_special_characters (remove_extra_whitespace text) (\<not> aggressive))))"
proof -
  let ?ns = "\<lambda>c. \<not> isspace c"
  let ?out = "strip (remove_special_characters (remove_extra_whitespace text) (\<not> aggressive))"
  have e: "text = [] \<or> strip text = [] \<longleftrightarrow> (\<forall>c \<in> set text. isspace c)"
    by (auto simp: strip_eq_Nil)
  have "?out = [] \<longleftrightarrow> filter ?ns ?out = []"
  proof
    assume "?out = []"
    then show "filter ?ns ?out = []" by simp
  next
    assume f: "filter ?ns ?out = []"
    show "?out = []"
    proof (rule ccontr)
      assume "?out \<noteq> []"
      then have "\<not> isspace (hd ?out)" "hd ?out \<in> set ?out"
        using strip_hd [of "remove_special_characters (remove_extra_whitespace text) (\<not> aggressive)"]
        by simp_all
      with f show False
        by (simp add: filter_empty_conv)
    qed
  qed
  also have "\<dots> \<longleftrightarrow> (\<forall>c \<in> set text. isspace c \<or> \<not> allowed_char (\<not> aggressive) c)"
    unfolding text_pipeline by (auto simp: filter_empty_conv)
  finally have o: "?out = [] \<longleftrightarrow> (\<forall>c \<in> set text. isspace c \<or> \<not> allowed_char (\<not> aggressive) c)" .
  show ?thesis
    unfolding preprocess_def Let_def e o by simp
qed

lemma preprocess_again:
  assumes "preprocess text aggressive = Inr t"
  shows "\<exists>t'. preprocess t aggressive = Inr t'"
proof -
  from preprocess_chars [OF assms] have
    "t \<noteq> []" "\<not> isspace (hd t)" "\<forall>c \<in> set t. allowed_char (\<not> aggressive) c"
    by blast+
  then have "hd t \<in> set t" "\<not> isspace (hd t)" "allowed_char (\<not> aggressive) (hd t)"
    by simp_all
  then have "\<not> (\<forall>c \<in> set t. isspace c)"
    "\<not> (\<forall>c \<in> set t. isspace c \<or> \<not> allowed_char (\<not> aggressive) c)"
    by blast+
  then show ?thesis
    by (simp add: preprocess_result [of t aggressive])
qed

text \<open>
  Claim C5, amended. Preprocessing is idempotent, in both modes, on every input that
  holds only characters of the allowed set of the mode (ASCII letters and digits, white
  space and, unless aggressive, the punctuation \<open>.,;:()-+#/\<close>), so that the character
  filter removes nothing: if preprocessing returns a text for such an input,
  preprocessing that text returns it again. The output of any first pass is such an
  input: a second pass on it never fails, and a third pass always returns what the
  second returned.
\<close>

theorem preprocess_idempotent_on_allowed:
  "((\<forall>c \<in> set text.
        (97 \<le> c \<and> c \<le> 122) \<or> (65 \<le> c \<and> c \<le> 90) \<or> (48 \<le> c \<and> c \<le> 57) \<or> isspace c \<or>
        (\<not> aggressive \<and> c \<in> set (str ''.,;:()-+#/''))) \<and>
    preprocess text aggressive = Inr t \<longrightarrow>
      preprocess t aggressive = Inr t) \<and>
   (preprocess text aggressive = Inr t \<longrightarrow> (\<exists>t'. preprocess t aggressive = Inr t')) \<and>
   (preprocess text aggressive = Inr t \<and> preprocess t aggressive = Inr t' \<longrightarrow>
      preprocess t' aggressive = Inr t')"
proof (intro conjI impI)
  assume "(\<forall>c \<in> set text.
        (97 \<le> c \<and> c \<le> 122) \<or> (65 \<le> c \<and> c \<le> 90) \<or> (48 \<le> c \<and> c \<le> 57) \<or> isspace c \<or>
        (\<not> aggressive \<and> c \<in> set (str ''.,;:()-+#/''))) \<and>
    preprocess text aggressive = Inr t"
  then have "\<forall>c \<in> set text. allowed_char (\<not> aggressive) c" "preprocess text aggressive = Inr t"
    unfolding allowed_char_explicit by blast+
  then show "preprocess t aggressive = Inr t"
    using preprocess_stable by blast
next
  assume "preprocess text aggressive = Inr t"
  then show "\<exists>t'. preprocess t aggressive = Inr t'"
    by (rule preprocess_again)
next
  assume a: "preprocess text aggressive = Inr t \<and> preprocess t aggressive = Inr t'"
  then have "\<forall>c \<in> set t. allowed_char (\<not> aggressive) c"
    using preprocess_chars by blast
  with a show "preprocess t' aggressive = Inr t'"
    using preprocess_stable by blast
qed

text \<open>
  Claim C6, amended. Preprocessing returns a text exactly when the input holds a letter,
  a digit or, unless aggressive, one of the punctuation characters; it raises "Empty text
  provided for preprocessing" exactly on the inputs of white space only, and "Text became
  empty after preprocessing" on the other inputs without such a character. Whenever it returns a text, the text is not empty,
  starts and ends with a character that is not white space (so it has no blank line at
  either end), holds only characters of the allowed set of the mode, and its characters
  other than white space are the letters, digits and kept punctuation of the input, in
  their order. The text that leaves the white-space step never holds two spaces side by
  side; the returned text holds none when the input had only allowed characters, so
  that the character filter, which runs after the white-space step, removed nothing.
\<close>

theorem preprocess_normalized:
  "(preprocess text aggressive = Inr t \<longrightarrow>
      t \<noteq> [] \<and> \<not> isspace (hd t) \<and> \<not> isspace (last t) \<and>
      (\<forall>c \<in> set t.
          (97 \<le> c \<and> c \<le> 122) \<or> (65 \<le> c \<and> c \<le> 90) \<or> (48 \<le> c \<and> c \<le> 57) \<or> isspace c \<or>
          (\<not> aggressive \<and> c \<in> set (str ''.,;:()-+#/''))) \<and>
      filter (\<lambda>c. \<not> isspace c) t =
        filter (\<lambda>c. (97 \<le> c \<and> c \<le> 122) \<or> (65 \<le> c \<and> c \<le> 90) \<or> (48 \<le> c \<and> c \<le> 57) \<or>
                     (\<not> aggressive \<and> c \<in> set (str ''.,;:()-+#/''))) text \<and>
      ((\<forall>c \<in> set text.
          (97 \<le> c \<and> c \<le> 122) \<or> (65 \<le> c \<and> c \<le> 90) \<or> (48 \<le> c \<and> c \<le> 57) \<or> isspace c \<or>
          (\<not> aggressive \<and> c \<in> set (str ''.,;:()-+#/''))) \<longrightarrow>
       (\<forall>i. Suc i < length t \<longrightarrow> \<not> (t ! i = 32 \<and> t ! Suc i = 32)))) \<and>
   (\<forall>i. Suc i < length (remove_extra_whitespace text) \<longrightarrow>
        \<not> (remove_extra_whitespace text ! i = 32 \<and> remove_extra_whitespace text ! Suc i = 32)) \<and>
   ((\<exists>r. preprocess text aggressive = Inr r) \<longleftrightarrow>
    (\<exists>c \<in> set text.
        (97 \<le> c \<and> c \<le> 122) \<or> (65 \<le> c \<and> c \<le> 90) \<or> (48 \<le> c \<and> c \<le> 57) \<or>
        (\<not> aggressive \<and> c \<in> set (str ''.,;:()-+#/'')))) \<and>
   (preprocess text aggressive = Inl EmptyText \<longleftrightarrow> (\<forall>c \<in> set text. isspace c)) \<and>
   (preprocess text aggressive = Inl EmptyAfterPreprocessing \<longleftrightarrow>
    (\<exists>c \<in> set text. \<not> isspace c) \<and>
    \<not> (\<exists>c \<in> set text.
          (97 \<le> c \<and> c \<le> 122) \<or> (65 \<le> c \<and> c \<le> 90) \<or> (48 \<le> c \<and> c \<le> 57) \<or>
          (\<not> aggressive \<and> c \<in> set (str ''.,;:()-+#/''))))"
proof (intro conjI impI)
  assume a: "preprocess text aggressive = Inr t"
  from preprocess_chars [OF a]
  show "t \<noteq> []" "\<not> isspace (hd t)" "\<not> isspace (last t)"
    "\<forall>c \<in> set t.
          (97 \<le> c \<and> c \<le> 122) \<or> (65 \<le> c \<and> c \<le> 90) \<or> (48 \<le> c \<and> c \<le> 57) \<or> isspace c \<or>
          (\<not> aggressive \<and> c \<in> set (str ''.,;:()-+#/''))"
    unfolding allowed_char_explicit by blast+
  from preprocess_text [OF a]
  show "filter (\<lambda>c. \<not> isspace c) t =
        filter (\<lambda>c. (97 \<le> c \<and> c \<le> 122) \<or> (65 \<le> c \<and> c \<le> 90) \<or> (48 \<le> c \<and> c \<le> 57) \<or>
                     (\<not> aggressive \<and> c \<in> set (str ''.,;:()-+#/''))) text"
    unfolding visible_explicit .
  assume "\<forall>c \<in> set text.
          (97 \<le> c \<and> c \<le> 122) \<or> (65 \<le> c \<and> c \<le> 90) \<or> (48 \<le> c \<and> c \<le> 57) \<or> isspace c \<or>
          (\<not> aggressive \<and> c \<in> set (str ''.,;:()-+#/''))"
  then have "\<forall>c \<in> set text. allowed_char (\<not> aggressive) c"
    unfolding allowed_char_explicit .
  then have "no_double_space t"
    using a preprocess_stable by blast
  then show "\<forall>i. Suc i < length t \<longrightarrow> \<not> (t ! i = 32 \<and> t ! Suc i = 32)"
    by (simp only: no_double_space_explicit)
next
  have "no_double_space (remove_extra_whitespace text)"
    by (rule remove_extra_whitespace_no_double)
  then show "\<forall>i. Suc i < length (remove_extra_whitespace text) \<longrightarrow>
        \<not> (remove_extra_whitespace text ! i = 32 \<and> remove_extra_whitespace text ! Suc i = 32)"
    by (simp only: no_double_space_explicit)
next
  have "(\<exists>r. preprocess text aggressive = Inr r) \<longleftrightarrow>
        (\<exists>c \<in> set text. \<not> isspace c \<and> allowed_char (\<not> aggressive) c)"
    unfolding preprocess_result [of "text" aggressive] by auto
  then show "(\<exists>r. preprocess text aggressive = Inr r) \<longleftrightarrow>
    (\<exists>c \<in> set text.
        (97 \<le> c \<and> c \<le> 122) \<or> (65 \<le> c \<and> c \<le> 90) \<or> (48 \<le> c \<and> c \<le> 57) \<or>
        (\<not> aggressive \<and> c \<in> set (str ''.,;:()-+#/'')))"
    unfolding visible_explicit .
next
  show "preprocess text aggressive = Inl EmptyText \<longleftrightarrow> (\<forall>c \<in> set text. isspace c)"
    unfolding preprocess_result [of "text" aggressive] by auto
next
  have "preprocess text aggressive = Inl EmptyAfterPreprocessing \<longleftrightarrow>
        (\<exists>c \<in> set text. \<not> isspace c) \<and>
        \<not> (\<exists>c \<in> set text. \<not> isspace c \<and> allowed_char (\<not> aggressive) c)"
    unfolding preprocess_result [of "text" aggressive] by auto
  then show "preprocess text aggressive = Inl EmptyAfterPreprocessing \<longleftrightarrow>
    (\<exists>c \<in> set text. \<not> isspace c) \<and>
    \<not> (\<exists>c \<in> set text.
          (97 \<le> c \<and> c \<le> 122) \<or> (65 \<le> c \<and> c \<le> 90) \<or> (48 \<le> c \<and> c \<le> 57) \<or>
          (\<not> aggressive \<and> c \<in> set (str ''.,;:()-+#/'')))"
    unfolding visible_explicit .
qed

lemmas preprocess_defs =
  preprocess_def remove_extra_whitespace_def strip_lines_def remove_special_characters_def
  allowed_char_def alphanumeric_def after_last_newline_def strip_def lstrip_def rstrip_def
  isspace_def str_def NL_def SP_def Let_def

text \<open>
  Claim C5, refuted as stated. In \<open>a @ b\<close> the character filter removes the \<open>@\<close> after the
  runs of spaces have been collapsed, which leaves two spaces side by side; the second
  pass collapses them, so it changes the text although it does not become empty. The
  same happens in aggressive mode with \<open>a . b\<close>.
\<close>

theorem preprocess_not_idempotent_counterexample:
  "preprocess (str ''a @ b'') False = Inr (str ''a  b'') \<and>
   preprocess (str ''a  b'') False = Inr (str ''a b'') \<and>
   preprocess (str ''a . b'') True = Inr (str ''a  b'') \<and>
   preprocess (str ''a  b'') True = Inr (str ''a b'')"
  by (simp add: preprocess_defs)

theorem preprocess_idempotent_on_allowed_witness:
  "preprocess (str '' a  b\<newline>\<newline>\<newline>c. '') False = Inr (str ''a b\<newline>\<newline>c.'') \<and>
   preprocess (str ''a b\<newline>\<newline>c.'') False = Inr (str ''a b\<newline>\<newline>c.'') \<and>
   preprocess (str ''x % y'') True = Inr (str ''x  y'') \<and>
   preprocess (str ''x  y'') True = Inr (str ''x y'') \<and>
   preprocess (str ''x y'') True = Inr (str ''x y'')"
proof -
  let ?text = "str '' a  b\<newline>\<newline>\<newline>c. ''"
  let ?t = "str ''a b\<newline>\<newline>c.''"
  have h: "\<forall>c \<in> set ?text.
        (97 \<le> c \<and> c \<le> 122) \<or> (65 \<le> c \<and> c \<le> 90) \<or> (48 \<le> c \<and> c \<le> 57) \<or> isspace c \<or>
        (\<not> False \<and> c \<in> set (str ''.,;:()-+#/''))"
    by (simp add: str_def isspace_def)
  have p: "preprocess ?text False = Inr ?t"
    by (simp add: preprocess_defs)
  have 1: "preprocess ?t False = Inr ?t"
    using preprocess_idempotent_on_allowed [of ?text False ?t, THEN conjunct1]
      h p by blast
  have q: "preprocess (str ''x % y'') True = Inr (str ''x  y'')"
    "preprocess (str ''x  y'') True = Inr (str ''x y'')"
    by (simp_all add: preprocess_defs)
  have 2: "preprocess (str ''x y'') True = Inr (str ''x y'')"
    using preprocess_idempotent_on_allowed
      [of "str ''x % y''" True "str ''x  y''" "str ''x y''", THEN conjunct2, THEN conjunct2]
      q by blast
  from p 1 q 2 show ?thesis by simp
qed

text \<open>
  Claim C6, refuted as stated. In \<open>Engineer | Python\<close> the character filter removes the bar
  between two spaces after the white-space step has run, so the returned text holds two
  spaces side by side.
\<close>

theorem preprocess_double_space_counterexample:
  "preprocess (str ''Engineer | Python'') False = Inr (str ''Engineer  Python'') \<and>
   str ''Engineer  Python'' ! 8 = 32 \<and> str ''Engineer  Python'' ! 9 = 32"
  by (simp add: preprocess_defs)

theorem preprocess_normalized_witness:
  "preprocess (str '' Go,  C++ \<newline>\<newline>\<newline> SQL '') False = Inr (str ''Go, C++\<newline>\<newline>SQL'') \<and>
   \<not> isspace (hd (str ''Go, C++\<newline>\<newline>SQL'')) \<and>
   \<not> isspace (last (str ''Go, C++\<newline>\<newline>SQL'')) \<and>
   list_all (\<lambda>c. (97 \<le> c \<and> c \<le> 122) \<or> (65 \<le> c \<and> c \<le> 90) \<or> (48 \<le> c \<and> c \<le> 57) \<or>
                  isspace c \<or> c \<in> set (str ''.,;:()-+#/''))
     (str ''Go, C++\<newline>\<newline>SQL'') \<and>
   filter (\<lambda>c. \<not> isspace c) (str ''Go, C++\<newline>\<newline>SQL'') = str ''Go,C++SQL'' \<and>
   no_double_space (str ''Go, C++\<newline>\<newline>SQL'')"
proof -
  let ?text = "str '' Go,  C++ \<newline>\<newline>\<newline> SQL ''"
  let ?t = "str ''Go, C++\<newline>\<newline>SQL''"
  let ?allowed = "\<lambda>c :: nat. (97 \<le> c \<and> c \<le> 122) \<or> (65 \<le> c \<and> c \<le> 90) \<or> (48 \<le> c \<and> c \<le> 57) \<or>
        isspace c \<or> (\<not> False \<and> c \<in> set (str ''.,;:()-+#/''))"
  let ?visible = "\<lambda>c :: nat. (97 \<le> c \<and> c \<le> 122) \<or> (65 \<le> c \<and> c \<le> 90) \<or> (48 \<le> c \<and> c \<le> 57) \<or>
        (\<not> False \<and> c \<in> set (str ''.,;:()-+#/''))"
  have h: "\<forall>c \<in> set ?text. ?allowed c"
    by (simp add: str_def isspace_def)
  have p: "preprocess ?text False = Inr ?t"
    by (simp add: preprocess_defs)
  note T = preprocess_normalized [of ?text False ?t, THEN conjunct1, rule_format, OF p]
  note c1 = T [THEN conjunct2, THEN conjunct1]
  note c2 = T [THEN conjunct2, THEN conjunct2, THEN conjunct1]
  note c3 = T [THEN conjunct2, THEN conjunct2, THEN conjunct2, THEN conjunct1]
  note c4 = T [THEN conjunct2, THEN conjunct2, THEN conjunct2, THEN conjunct2, THEN conjunct1]
  note i = T [THEN conjunct2, THEN conjunct2, THEN conjunct2, THEN conjunct2, THEN conjunct2]
  from i h have c5: "\<forall>i. Suc i < length ?t \<longrightarrow> \<not> (?t ! i = 32 \<and> ?t ! Suc i = 32)"
    by (rule mp)
  from c3 have l: "list_all (\<lambda>c. (97 \<le> c \<and> c \<le> 122) \<or> (65 \<le> c \<and> c \<le> 90) \<or>
      (48 \<le> c \<and> c \<le> 57) \<or> isspace c \<or> c \<in> set (str ''.,;:()-+#/'')) ?t"
    unfolding list_all_iff by simp
  have v: "filter ?visible ?text = str ''Go,C++SQL''"
    by (simp add: str_def)
  from c5 have n: "no_double_space ?t"
    by (simp only: no_double_space_explicit)
  from p c1 c2 l c4 [unfolded v] n show ?thesis by (intro conjI)
qed

end
